theory Spec2Isabelle
  imports Main
begin

section \<open>JavaScript values\<close>

text \<open>
  The messages that cross the extension boundary, the payloads of the requests and the
  results of the Wallet Client are untyped JavaScript values. A Number is either an
  integer (\<open>JInt\<close>, the case \<^verbatim>\<open>Number.isInteger\<close> accepts) or any other Number
  (\<open>JNonInt\<close>: a fraction, NaN or an infinity), which is identified by the text that
  \<^verbatim>\<open>String\<close> gives it. An object is the list of its own properties.
\<close>

datatype jsval =
    JUndefined
  | JNull
  | JBool bool
  | JInt int
  | JNonInt string
  | JStr string
  | JObj "(string \<times> jsval) list"

text \<open>\<^verbatim>\<open>!v\<close> is \<open>\<not> truthy v\<close>.\<close>

fun truthy :: "jsval \<Rightarrow> bool" where
  "truthy JUndefined = False"
| "truthy JNull = False"
| "truthy (JBool b) = b"
| "truthy (JInt i) = (i \<noteq> 0)"
| "truthy (JNonInt s) = (s \<noteq> ''NaN'')"
| "truthy (JStr s) = (s \<noteq> [])"
| "truthy (JObj kvs) = True"

text \<open>Reading a property of \<^verbatim>\<open>undefined\<close> or \<^verbatim>\<open>null\<close> throws a TypeError.\<close>

fun nullish :: "jsval \<Rightarrow> bool" where
  "nullish JUndefined = True"
| "nullish JNull = True"
| "nullish v = False"

text \<open>
  \<open>getp v k\<close> is \<^verbatim>\<open>v.k\<close> for a value that is not nullish: the property of an
  object, \<^verbatim>\<open>undefined\<close> when the object has none of that name or when \<open>v\<close> is a
  primitive (none of the names read below is a property of a primitive).
\<close>

fun getp :: "jsval \<Rightarrow> string \<Rightarrow> jsval" where
  "getp (JObj kvs) k = (case map_of kvs k of None \<Rightarrow> JUndefined | Some v \<Rightarrow> v)"
| "getp v k = JUndefined"

fun isInteger :: "jsval \<Rightarrow> bool" where
  "isInteger (JInt i) = True"
| "isInteger v = False"

subsection \<open>String(v)\<close>

text \<open>
  \<^verbatim>\<open>String(n)\<close> of a Number is ECMAScript's Number::toString in radix 10: the
  shortest digits \<open>s\<close> (there are \<open>k\<close> of them) and the exponent \<open>n\<close> with
  \<open>s * 10 ^ (n - k)\<close> rounding to the Number. An integer up to \<open>2 ^ 53\<close> is written
  with all its digits. A larger one is a double only when it is its own rounding to 53
  bits (\<open>round_double\<close>, ties to even), and is written with the fewest digits that
  round to it, followed by zeros while \<open>n \<le> 21\<close> and in exponent form beyond.
\<close>

definition digit_char :: "nat \<Rightarrow> char" where
  "digit_char d = ''0123456789'' ! d"

function dec :: "nat \<Rightarrow> string" where
  "dec n = (if n < 10 then [digit_char n] else dec (n div 10) @ [digit_char (n mod 10)])"
  by pat_completeness auto
termination
  by (relation "measure id") auto

function bit_length :: "nat \<Rightarrow> nat" where
  "bit_length n = (if n = 0 then 0 else Suc (bit_length (n div 2)))"
  by pat_completeness auto
termination
  by (relation "measure id") auto

definition round_double :: "nat \<Rightarrow> nat" where
  "round_double v =
     (if v < 2 ^ 53 then v
      else (let e = bit_length v - 53; q = v div 2 ^ e; r = v mod 2 ^ e
            in (if 2 ^ e < 2 * r \<or> (2 * r = 2 ^ e \<and> odd q) then q + 1 else q) * 2 ^ e))"

text \<open>
  \<open>shortest x m k\<close>: the digits \<open>s\<close> for \<open>x\<close> of \<open>m\<close> decimal digits, trying
  \<open>k\<close>, \<open>k + 1\<close>, ... digits; of two candidates the one nearer to \<open>x\<close>, the even one
  on a tie. With \<open>m\<close> digits \<open>x\<close> itself is the answer.
\<close>

function shortest :: "nat \<Rightarrow> nat \<Rightarrow> nat \<Rightarrow> nat" where
  "shortest x m k =
     (if m \<le> k then x
      else (let p = 10 ^ (m - k); lo = x div p;
                okl = (round_double (lo * p) = x);
                okh = (lo + 1 < 10 ^ k \<and> round_double ((lo + 1) * p) = x)
            in if okl \<and> okh then
                 (if x - lo * p < (lo + 1) * p - x \<or> (x - lo * p = (lo + 1) * p - x \<and> even lo)
                  then lo else lo + 1)
               else if okl then lo
               else if okh then lo + 1
               else shortest x m (Suc k)))"
  by pat_completeness auto
termination
  by (relation "measure (\<lambda>(x, m, k). m - k)") auto

definition render :: "nat \<Rightarrow> nat \<Rightarrow> string" where
  "render s n =
     (let ds = dec s; k = length ds
      in if n \<le> 21 then ds @ replicate (n - k) CHR ''0''
         else if k = 1 then ds @ ''e+'' @ dec (n - 1)
         else hd ds # ''.'' @ tl ds @ ''e+'' @ dec (n - 1))"

definition nat_to_string :: "nat \<Rightarrow> string" where
  "nat_to_string x =
     (if x \<le> 2 ^ 53 then dec x
      else (let m = length (dec x)
            in if round_double (10 ^ m) = x then render 1 (m + 1)
               else render (shortest x m 1) m))"

definition number_to_string :: "int \<Rightarrow> string" where
  "number_to_string i = (if i < 0 then ''-'' @ nat_to_string (nat (- i)) else nat_to_string (nat i))"

fun js_String :: "jsval \<Rightarrow> string" where
  "js_String JUndefined = ''undefined''"
| "js_String JNull = ''null''"
| "js_String (JBool b) = (if b then ''true'' else ''false'')"
| "js_String (JInt i) = number_to_string i"
| "js_String (JNonInt s) = s"
| "js_String (JStr s) = s"
| "js_String (JObj kvs) = ''[object Object]''"

section \<open>The approval panel (WalletActionModalContext.tsx)\<close>

subsection \<open>Data\<close>

text \<open>
  \<^verbatim>\<open>WalletActionRequest\<close>: a tagged union over the action kinds, each with its fields,
  and the optional \<^verbatim>\<open>id\<close>. The fields hold what the request carried, whatever its
  run-time type.
\<close>

datatype action_kind =
    GetPublicKey
  | SharePublicKey
  | SignMessage jsval
  | SignIn jsval
  | Send jsval jsval jsval jsval
  | MintToken jsval jsval jsval
  | Alive

record wallet_action =
  kind :: action_kind
  action_id :: jsval

text \<open>
  The \<^verbatim>\<open>modal\<close> state: the action with either the \<^verbatim>\<open>resolve\<close>/\<^verbatim>\<open>reject\<close> pair
  of a promise (named by the number of the promise) or the \<^verbatim>\<open>external\<close> flag and the
  \<^verbatim>\<open>requestId\<close>. Every field but the action is optional in the source.
\<close>

record pending =
  action :: wallet_action
  resolve :: "nat option"
  reject :: "nat option"
  external :: "bool option"
  requestId :: jsval

text \<open>
  The Wallet Client is an external collaborator. Its two synchronous methods are
  functions; the asynchronous ones (\<^verbatim>\<open>placeTXV2\<close>, \<^verbatim>\<open>mintToken\<close>,
  \<^verbatim>\<open>getMintFee\<close>) are calls whose value comes back with a later event.
\<close>

record wallet_client =
  getPublic :: jsval
  signMessage :: "jsval \<Rightarrow> jsval"

datatype client_call =
    CallGetPublic
  | CallSignMessage jsval
  | CallPlaceTXV2 jsval jsval jsval jsval
  | CallMintToken jsval jsval jsval
  | CallGetMintFee

text \<open>What the panel does to the outside, in the order it does it.\<close>

datatype effect =
    SendMessage jsval
  | Resolve nat jsval
  | Reject nat jsval
  | ClientCall client_call

text \<open>
  A suspended continuation: \<^verbatim>\<open>handleApprove\<close> stopped at its \<^verbatim>\<open>await\<close>, holding
  the \<^verbatim>\<open>modal\<close> and the \<^verbatim>\<open>client\<close> of the render whose button was clicked, or
  the \<^verbatim>\<open>then\<close> of \<^verbatim>\<open>getMintFee\<close>.
\<close>

datatype continuation =
    AwaitPlaceTX pending wallet_client
  | AwaitMint pending wallet_client
  | AwaitMintFee

record panel =
  client :: "wallet_client option"
  modal :: "pending option"
  countdown :: int
  mintFee :: jsval
  interval :: bool
  awaiting :: "(nat \<times> continuation) list"
  next_call :: nat

datatype panel_event =
    PanelRequest jsval
  | RequestAction wallet_action nat
  | ClickApprove
  | ClickReject
  | Tick
  | Settled nat jsval
  | Failed nat

subsection \<open>State updates\<close>

text \<open>
  \<^verbatim>\<open>setModal\<close> together with the effect that depends on \<^verbatim>\<open>[modal]\<close>: the interval
  of the previous modal is cleared; a closed modal resets the countdown to 10, an open one
  starts a new interval and leaves the countdown as it stands. Setting \<^verbatim>\<open>null\<close> over
  \<^verbatim>\<open>null\<close> is no change of state, and no effect runs.
\<close>

definition setModal :: "pending option \<Rightarrow> panel \<Rightarrow> panel" where
  "setModal m s =
     (case m of
        None \<Rightarrow> (case modal s of
                   None \<Rightarrow> s
                 | Some old \<Rightarrow> s\<lparr>modal := None, countdown := 10, interval := False\<rparr>)
      | Some p \<Rightarrow> s\<lparr>modal := Some p, interval := True\<rparr>)"

definition external_pending :: "action_kind \<Rightarrow> jsval \<Rightarrow> pending" where
  "external_pending k rid =
     \<lparr>action = \<lparr>kind = k, action_id = JUndefined\<rparr>, resolve = None, reject = None,
      external = Some True, requestId = rid\<rparr>"

definition panel_response :: "jsval \<Rightarrow> string \<Rightarrow> jsval \<Rightarrow> jsval" where
  "panel_response rid k v =
     JObj [(''type'', JStr ''feeless-wallet-panel-response''), (''requestId'', rid), (k, v)]"

definition wallet_response :: "jsval \<Rightarrow> string \<Rightarrow> jsval \<Rightarrow> jsval" where
  "wallet_response i k v =
     JObj [(''type'', JStr ''feeless-wallet-response''), (''id'', i), (k, v)]"

subsection \<open>handlePanelRequest\<close>

definition handlePanelRequest :: "panel \<Rightarrow> jsval \<Rightarrow> panel \<times> effect list" where
  "handlePanelRequest s request =
     (if truthy request \<and> getp request ''type'' = JStr ''feeless-wallet-panel-request'' then
        (case client s of
           None \<Rightarrow> (s, [])
         | Some c \<Rightarrow>
             (let method = getp request ''method'';
                  payload = getp request ''payload'';
                  rid = getp request ''requestId''
              in if method = JStr ''alive'' then
                   (s, [SendMessage (panel_response rid ''result''
                                       (JObj [(''status'', JStr ''alive'')]))])
                 else if method = JStr ''getPublicKey'' then
                   (setModal (Some (external_pending GetPublicKey rid)) s, [])
                 else if method = JStr ''signMessage'' then
                   (if nullish payload then (s, [])
                    else (setModal (Some (external_pending
                            (SignMessage (getp payload ''message'')) rid)) s, []))
                 else if method = JStr ''signIn'' then
                   (if nullish payload then (s, [])
                    else (setModal (Some (external_pending
                            (SignIn (getp payload ''nonce'')) rid)) s, []))
                 else if method = JStr ''send'' then
                   (if nullish payload then (s, [])
                    else (setModal (Some (external_pending
                            (Send (getp payload ''amount'') (getp payload ''to'')
                               (getp payload ''token'') JUndefined) rid)) s, []))
                 else if method = JStr ''mintToken'' then
                   (if nullish payload then (s, [])
                    else (let s' = setModal (Some (external_pending
                                     (MintToken (getp payload ''airdrop'')
                                        (getp payload ''miningReward'')
                                        (getp payload ''token'')) rid)) s
                          in (s'\<lparr>awaiting := awaiting s' @ [(next_call s', AwaitMintFee)],
                                 next_call := Suc (next_call s')\<rparr>,
                              [ClientCall CallGetMintFee])))
                 else (s, [])))
      else (s, []))"

subsection \<open>requestAction\<close>

definition requestAction :: "panel \<Rightarrow> wallet_action \<Rightarrow> nat \<Rightarrow> panel \<times> effect list" where
  "requestAction s a p =
     (setModal (Some \<lparr>action = a, resolve = Some p, reject = Some p,
                      external = Some False, requestId = JUndefined\<rparr>) s, [])"

subsection \<open>handleReject\<close>

text \<open>
  The outcome goes to one place: a panel response when the modal is external and has a
  truthy \<^verbatim>\<open>requestId\<close>, else a wallet response when it is external and its action
  has a truthy \<^verbatim>\<open>id\<close>, else the promise's \<^verbatim>\<open>reject\<close> when there is one.
\<close>

definition reject_outcome :: "pending \<Rightarrow> effect list" where
  "reject_outcome m =
     (if external m = Some True \<and> truthy (requestId m) then
        [SendMessage (panel_response (requestId m) ''error'' (JStr ''User denied''))]
      else if external m = Some True \<and> truthy (action_id (action m)) then
        [SendMessage (wallet_response (action_id (action m)) ''error'' (JStr ''User denied''))]
      else (case reject m of
              Some p \<Rightarrow> [Reject p (JStr ''User denied'')]
            | None \<Rightarrow> []))"

definition handleReject :: "panel \<Rightarrow> panel \<times> effect list" where
  "handleReject s =
     (case modal s of
        None \<Rightarrow> (s, [])
      | Some m \<Rightarrow> (setModal None s, reject_outcome m))"

subsection \<open>handleApprove\<close>

definition approve_outcome :: "pending \<Rightarrow> jsval \<Rightarrow> effect list" where
  "approve_outcome m result =
     (if external m = Some True \<and> truthy (requestId m) then
        [SendMessage (panel_response (requestId m) ''result'' result)]
      else if external m = Some True \<and> truthy (action_id (action m)) then
        [SendMessage (wallet_response (action_id (action m)) ''result'' result)]
      else (case resolve m of
              Some p \<Rightarrow> [Resolve p result]
            | None \<Rightarrow> []))"

text \<open>The results that need no \<^verbatim>\<open>await\<close>, with the client calls that compute them.\<close>

definition share_result :: "wallet_client option \<Rightarrow> jsval \<times> effect list" where
  "share_result co =
     (case co of
        None \<Rightarrow> (JUndefined, [])
      | Some c \<Rightarrow> (JObj [(''publicKey'', getPublic c)], [ClientCall CallGetPublic]))"

definition sign_result :: "wallet_client option \<Rightarrow> jsval \<Rightarrow> jsval \<times> effect list" where
  "sign_result co msg =
     (case co of
        None \<Rightarrow> (JUndefined, [])
      | Some c \<Rightarrow>
          (JObj [(''publicKey'', getPublic c), (''signature'', signMessage c msg)],
           [ClientCall CallGetPublic, ClientCall (CallSignMessage msg)]))"

text \<open>The end of \<^verbatim>\<open>handleApprove\<close>: the outcome, then \<^verbatim>\<open>setModal(null)\<close>.\<close>

definition finish :: "panel \<Rightarrow> pending \<Rightarrow> jsval \<times> effect list \<Rightarrow> panel \<times> effect list" where
  "finish s m rc = (setModal None s, snd rc @ approve_outcome m (fst rc))"

definition suspend :: "panel \<Rightarrow> continuation \<Rightarrow> client_call \<Rightarrow> panel \<times> effect list" where
  "suspend s k call =
     (s\<lparr>awaiting := awaiting s @ [(next_call s, k)], next_call := Suc (next_call s)\<rparr>,
      [ClientCall call])"

text \<open>\<^verbatim>\<open>v ?? undefined\<close>\<close>

definition or_undefined :: "jsval \<Rightarrow> jsval" where
  "or_undefined v = (if nullish v then JUndefined else v)"

text \<open>
  For \<^verbatim>\<open>send\<close> and \<^verbatim>\<open>mintToken\<close> the function returns at once when there is no
  client (nothing is sent, the modal stays), and otherwise stops at the \<^verbatim>\<open>await\<close>: the
  modal stays open and the interval keeps running until the call settles.
\<close>

definition handleApprove :: "panel \<Rightarrow> panel \<times> effect list" where
  "handleApprove s =
     (case modal s of
        None \<Rightarrow> (s, [])
      | Some m \<Rightarrow>
          (case kind (action m) of
             GetPublicKey \<Rightarrow> finish s m (share_result (client s))
           | SharePublicKey \<Rightarrow> finish s m (share_result (client s))
           | SignMessage msg \<Rightarrow> finish s m (sign_result (client s) msg)
           | SignIn nonce \<Rightarrow> finish s m (sign_result (client s) (JStr (js_String nonce)))
           | Send amount to token unlock \<Rightarrow>
               (case client s of
                  None \<Rightarrow> (s, [])
                | Some c \<Rightarrow> suspend s (AwaitPlaceTX m c) (CallPlaceTXV2 to amount token unlock))
           | MintToken airdrop miningReward token \<Rightarrow>
               (case client s of
                  None \<Rightarrow> (s, [])
                | Some c \<Rightarrow>
                    suspend s (AwaitMint m c)
                      (CallMintToken airdrop (or_undefined miningReward) token))
           | Alive \<Rightarrow> finish s m (JUndefined, [])))"

text \<open>The rest of \<^verbatim>\<open>handleApprove\<close>, and of the \<^verbatim>\<open>then\<close> of \<^verbatim>\<open>getMintFee\<close>.\<close>

definition resume :: "panel \<Rightarrow> continuation \<Rightarrow> jsval \<Rightarrow> panel \<times> effect list" where
  "resume s k v =
     (case k of
        AwaitPlaceTX m c \<Rightarrow>
          finish s m
            (JObj [(''status'', JStr (if truthy v then ''success'' else ''fail'')),
                   (''publicKey'', getPublic c),
                   (''signature'', or_undefined v)],
             [ClientCall CallGetPublic])
      | AwaitMint m c \<Rightarrow>
          finish s m
            (JObj [(''status'', JStr (if truthy v then ''success'' else ''fail'')),
                   (''publicKey'', getPublic c)],
             [ClientCall CallGetPublic])
      | AwaitMintFee \<Rightarrow> (s\<lparr>mintFee := v\<rparr>, []))"

definition settled :: "panel \<Rightarrow> nat \<Rightarrow> jsval \<Rightarrow> panel \<times> effect list" where
  "settled s n v =
     (case map_of (awaiting s) n of
        None \<Rightarrow> (s, [])
      | Some k \<Rightarrow> resume (s\<lparr>awaiting := filter (\<lambda>e. fst e \<noteq> n) (awaiting s)\<rparr>) k v)"

definition failed :: "panel \<Rightarrow> nat \<Rightarrow> panel \<times> effect list" where
  "failed s n = (s\<lparr>awaiting := filter (\<lambda>e. fst e \<noteq> n) (awaiting s)\<rparr>, [])"

subsection \<open>The countdown\<close>

text \<open>
  One firing of the interval (every 1000 ms while a modal is open): at 1 or below the
  interval is cleared, \<^verbatim>\<open>handleReject\<close> runs and the countdown goes back to 10;
  above 1 it goes down by one.
\<close>

definition tick_ms :: nat where
  "tick_ms = 1000"

definition tick :: "panel \<Rightarrow> panel \<times> effect list" where
  "tick s =
     (if \<not> interval s then (s, [])
      else if countdown s \<le> 1 then
        (let r = handleReject (s\<lparr>interval := False\<rparr>)
         in ((fst r)\<lparr>countdown := 10\<rparr>, snd r))
      else (s\<lparr>countdown := countdown s - 1\<rparr>, []))"

subsection \<open>One event of the panel\<close>

fun panel_step :: "panel \<Rightarrow> panel_event \<Rightarrow> panel \<times> effect list" where
  "panel_step s (PanelRequest request) = handlePanelRequest s request"
| "panel_step s (RequestAction a p) = requestAction s a p"
| "panel_step s ClickApprove = handleApprove s"
| "panel_step s ClickReject = handleReject s"
| "panel_step s Tick = tick s"
| "panel_step s (Settled n v) = settled s n v"
| "panel_step s (Failed n) = failed s n"

fun panel_run :: "panel \<Rightarrow> panel_event list \<Rightarrow> panel \<times> effect list" where
  "panel_run s [] = (s, [])"
| "panel_run s (e # es) =
     (case panel_step s e of (s', fx) \<Rightarrow>
        (case panel_run s' es of (s'', fx') \<Rightarrow> (s'', fx @ fx')))"

text \<open>The panel as it is mounted: no modal, the countdown at 10.\<close>

definition init_panel :: "wallet_client option \<Rightarrow> panel" where
  "init_panel co =
     \<lparr>client = co, modal = None, countdown = 10, mintFee = JInt 0, interval = False,
      awaiting = [], next_call = 0\<rparr>"

section \<open>The background dispatcher (background.js)\<close>

subsection \<open>Data\<close>

text \<open>
  A \<^verbatim>\<open>handlePanelResponse\<close> closure that is registered: its identity (what
  \<^verbatim>\<open>removeListener\<close> compares), the \<^verbatim>\<open>requestId\<close> it waits for and the
  \<^verbatim>\<open>sendResponse\<close> of the message that created it. Each \<^verbatim>\<open>sendResponse\<close> is named by
  a number.
\<close>

record panel_listener =
  l_id :: nat
  l_requestId :: string
  l_sendResponse :: nat

text \<open>A \<^verbatim>\<open>setTimeout\<close> that has not fired: when it is due and what its closure holds.\<close>

record timeout =
  t_due :: nat
  t_listener :: nat
  t_sendResponse :: nat

record bg =
  clock :: nat
  listeners :: "panel_listener list"
  timers :: "timeout list"
  next_id :: nat

datatype bg_effect =
    SendResponse nat jsval
  | Broadcast jsval

text \<open>
  A message arrives with its own \<^verbatim>\<open>sendResponse\<close> and with the value that
  \<^verbatim>\<open>Math.random().toString(36).slice(2)\<close> takes if the listener evaluates it; time
  passes in milliseconds.
\<close>

datatype bg_event =
    Message jsval nat string
  | Elapse nat

subsection \<open>The listeners\<close>

definition supported :: "jsval \<Rightarrow> bool" where
  "supported method \<longleftrightarrow>
     method = JStr ''getPublicKey'' \<or> method = JStr ''signMessage'' \<or>
     method = JStr ''signIn'' \<or> method = JStr ''send'' \<or>
     method = JStr ''mintToken'' \<or> method = JStr ''alive''"

definition panel_request :: "jsval \<Rightarrow> jsval \<Rightarrow> jsval \<Rightarrow> jsval" where
  "panel_request method payload rid =
     JObj [(''type'', JStr ''feeless-wallet-panel-request''), (''method'', method),
           (''payload'', payload), (''requestId'', rid)]"

definition nonce_error :: jsval where
  "nonce_error = JObj [(''error'', JStr ''Nonce must be an integer'')]"

definition timeout_error :: jsval where
  "timeout_error = JObj [(''error'', JStr ''Timeout waiting for user response'')]"

definition timeout_ms :: nat where
  "timeout_ms = 12000"

text \<open>
  The listener registered at start-up. A message that is \<^verbatim>\<open>undefined\<close> or
  \<^verbatim>\<open>null\<close> makes it throw at \<^verbatim>\<open>message.method\<close>. For a supported method it
  registers a \<^verbatim>\<open>handlePanelResponse\<close>; a \<^verbatim>\<open>signIn\<close> without an integer nonce is
  answered and the listener removed again; every other request is broadcast and the
  timeout is set.
\<close>

definition main_listener :: "bg \<Rightarrow> jsval \<Rightarrow> nat \<Rightarrow> string \<Rightarrow> bg \<times> bg_effect list" where
  "main_listener b message sendResponse rid =
     (if nullish message then (b, [])
      else if supported (getp message ''method'') then
        (let payload = getp message ''payload''
         in if getp message ''method'' = JStr ''signIn'' \<and>
               (\<not> truthy payload \<or> \<not> isInteger (getp payload ''nonce''))
            then (b\<lparr>next_id := Suc (next_id b)\<rparr>, [SendResponse sendResponse nonce_error])
            else
              (b\<lparr>listeners := listeners b @
                     [\<lparr>l_id = next_id b, l_requestId = rid, l_sendResponse = sendResponse\<rparr>],
                  timers := timers b @
                     [\<lparr>t_due = clock b + timeout_ms, t_listener = next_id b,
                       t_sendResponse = sendResponse\<rparr>],
                  next_id := Suc (next_id b)\<rparr>,
               [Broadcast (panel_request (getp message ''method'') payload (JStr rid))]))
      else (b, []))"

text \<open>The test of \<^verbatim>\<open>handlePanelResponse\<close> and what it passes on.\<close>

definition matches :: "string \<Rightarrow> jsval \<Rightarrow> bool" where
  "matches rid responseMessage \<longleftrightarrow>
     truthy responseMessage \<and>
     getp responseMessage ''type'' = JStr ''feeless-wallet-panel-response'' \<and>
     getp responseMessage ''requestId'' = JStr rid"

definition forwarded :: "jsval \<Rightarrow> jsval" where
  "forwarded responseMessage =
     JObj [(''result'', getp responseMessage ''result''),
           (''error'', getp responseMessage ''error'')]"

text \<open>
  Every listener that was registered when the message arrived is called with it: the
  start-up listener first, then the \<^verbatim>\<open>handlePanelResponse\<close> closures in the order of
  their registration. A closure that matches answers and removes itself.
\<close>

definition onMessage :: "bg \<Rightarrow> jsval \<Rightarrow> nat \<Rightarrow> string \<Rightarrow> bg \<times> bg_effect list" where
  "onMessage b message sendResponse rid =
     (let hit = filter (\<lambda>l. matches (l_requestId l) message) (listeners b);
          r = main_listener b message sendResponse rid
      in ((fst r)\<lparr>listeners := filter (\<lambda>l. l_id l \<notin> l_id ` set hit) (listeners (fst r))\<rparr>,
          snd r @ map (\<lambda>l. SendResponse (l_sendResponse l) (forwarded message)) hit))"

text \<open>
  Time passes: the timeouts that fall due fire in the order they were set, each removing
  its listener and answering with the timeout error, whether or not an answer was sent
  before.
\<close>

definition elapse :: "bg \<Rightarrow> nat \<Rightarrow> bg \<times> bg_effect list" where
  "elapse b d =
     (let now = clock b + d;
          fired = filter (\<lambda>t. t_due t \<le> now) (timers b)
      in (b\<lparr>clock := now,
            timers := filter (\<lambda>t. \<not> t_due t \<le> now) (timers b),
            listeners := filter (\<lambda>l. l_id l \<notin> t_listener ` set fired) (listeners b)\<rparr>,
          map (\<lambda>t. SendResponse (t_sendResponse t) timeout_error) fired))"

fun bg_step :: "bg \<Rightarrow> bg_event \<Rightarrow> bg \<times> bg_effect list" where
  "bg_step b (Message m sendResponse rid) = onMessage b m sendResponse rid"
| "bg_step b (Elapse d) = elapse b d"

fun bg_run :: "bg \<Rightarrow> bg_event list \<Rightarrow> bg \<times> bg_effect list" where
  "bg_run b [] = (b, [])"
| "bg_run b (e # es) =
     (case bg_step b e of (b', fx) \<Rightarrow>
        (case bg_run b' es of (b'', fx') \<Rightarrow> (b'', fx @ fx')))"

definition init_bg :: bg where
  "init_bg = \<lparr>clock = 0, listeners = [], timers = [], next_id = 0\<rparr>"

text \<open>What one caller is sent, in order: the arguments of the calls of its \<^verbatim>\<open>sendResponse\<close>.\<close>

fun responses :: "nat \<Rightarrow> bg_effect list \<Rightarrow> jsval list" where
  "responses ch [] = []"
| "responses ch (SendResponse c v # fx) = (if c = ch then v # responses ch fx else responses ch fx)"
| "responses ch (Broadcast m # fx) = responses ch fx"

fun broadcasts :: "bg_effect list \<Rightarrow> jsval list" where
  "broadcasts [] = []"
| "broadcasts (SendResponse c v # fx) = broadcasts fx"
| "broadcasts (Broadcast m # fx) = m # broadcasts fx"

section \<open>The relay as a whole\<close>

text \<open>
  The content script passes a request of the page on as \<^verbatim>\<open>{method, payload}\<close>.
\<close>

definition page_message :: "jsval \<Rightarrow> jsval \<Rightarrow> jsval" where
  "page_message method payload = JObj [(''method'', method), (''payload'', payload)]"

text \<open>
  The dispatcher and the one panel that listens. Each message that reaches the dispatcher
  comes with a \<^verbatim>\<open>sendResponse\<close> of its own, numbered by \<open>ports\<close>.
\<close>

record sys =
  dispatcher :: bg
  side_panel :: panel
  ports :: nat

datatype sys_event =
    FromPage jsval jsval string
  | InPanel panel_event
  | Passes nat

text \<open>
  What the panel hands to \<^verbatim>\<open>chrome.runtime.sendMessage\<close>.
\<close>

fun sent :: "effect list \<Rightarrow> jsval list" where
  "sent [] = []"
| "sent (SendMessage m # fx) = m # sent fx"
| "sent (e # fx) = sent fx"

text \<open>
  The messages that reach the panel's listener, in order.
\<close>

fun to_panel :: "panel \<Rightarrow> jsval list \<Rightarrow> panel \<times> effect list" where
  "to_panel p [] = (p, [])"
| "to_panel p (m # ms) =
     (case handlePanelRequest p m of (p', fx) \<Rightarrow>
        (case to_panel p' ms of (p'', fx') \<Rightarrow> (p'', fx @ fx')))"

text \<open>
  The messages of the panel reach every listener of the dispatcher. They carry no
  \<^verbatim>\<open>method\<close>, so the start-up listener never comes to draw a \<^verbatim>\<open>requestId\<close> for
  them, and nothing is broadcast in return.
\<close>

fun to_dispatcher :: "bg \<Rightarrow> nat \<Rightarrow> jsval list \<Rightarrow> (bg \<times> nat) \<times> bg_effect list" where
  "to_dispatcher b port [] = ((b, port), [])"
| "to_dispatcher b port (m # ms) =
     (case onMessage b m port [] of (b', fx) \<Rightarrow>
        (case to_dispatcher b' (Suc port) ms of (r, fx') \<Rightarrow> (r, fx @ fx')))"

text \<open>
  A message of a page reaches the dispatcher and the panel (which ignores it, as it has
  no \<^verbatim>\<open>type\<close>); what the dispatcher broadcasts reaches the panel, and what the panel
  sends reaches the dispatcher.
\<close>

fun sys_step :: "sys \<Rightarrow> sys_event \<Rightarrow> sys \<times> bg_effect list \<times> effect list" where
  "sys_step s (FromPage method payload rid) =
     (case onMessage (dispatcher s) (page_message method payload) (ports s) rid of
        (b1, fx1) \<Rightarrow>
          (case to_panel (side_panel s) (page_message method payload # broadcasts fx1) of
             (p1, pfx) \<Rightarrow>
               (case to_dispatcher b1 (Suc (ports s)) (sent pfx) of
                  ((b2, n), fx2) \<Rightarrow>
                    (\<lparr>dispatcher = b2, side_panel = p1, ports = n\<rparr>, fx1 @ fx2, pfx))))"
| "sys_step s (InPanel e) =
     (case panel_step (side_panel s) e of
        (p1, pfx) \<Rightarrow>
          (case to_dispatcher (dispatcher s) (ports s) (sent pfx) of
             ((b2, n), fx2) \<Rightarrow>
               (\<lparr>dispatcher = b2, side_panel = p1, ports = n\<rparr>, fx2, pfx)))"
| "sys_step s (Passes d) =
     (case elapse (dispatcher s) d of
        (b1, fx) \<Rightarrow> (s\<lparr>dispatcher := b1\<rparr>, fx, []))"

fun sys_run :: "sys \<Rightarrow> sys_event list \<Rightarrow> sys \<times> bg_effect list \<times> effect list" where
  "sys_run s [] = (s, [], [])"
| "sys_run s (e # es) =
     (case sys_step s e of (s', fx, pfx) \<Rightarrow>
        (case sys_run s' es of (s'', fx', pfx') \<Rightarrow> (s'', fx @ fx', pfx @ pfx')))"

definition init_sys :: "wallet_client option \<Rightarrow> sys" where
  "init_sys co = \<lparr>dispatcher = init_bg, side_panel = init_panel co, ports = 0\<rparr>"

section \<open>The credential store (storage.ts)\<close>

text \<open>
  \<^verbatim>\<open>localStorage\<close>, \<^verbatim>\<open>JSON.stringify\<close> and \<^verbatim>\<open>JSON.parse\<close> are built into the platform;
  they are written here after the Web Storage standard and ECMA-262, as far as the three
  functions of \<^verbatim>\<open>storage.ts\<close> use them.
\<close>

subsection \<open>Strings and JSON values\<close>

text \<open>
  A JavaScript string is a sequence of UTF-16 code units. \<open>ascii\<close> gives the code
  units of an ASCII text.
\<close>

type_synonym jstring = "nat list"

definition ascii :: "string \<Rightarrow> jstring" where
  "ascii s = map of_char s"

datatype json =
    JsNull
  | JsBool bool
  | JsNumber jstring
  | JsString jstring
  | JsArray "json list"
  | JsObject "(jstring \<times> json) list"

subsection \<open>JSON.stringify of strings\<close>

definition hexdigit :: "nat \<Rightarrow> nat" where
  "hexdigit d = (if d < 10 then 48 + d else 87 + d)"

definition hex_digits :: "nat \<Rightarrow> jstring" where
  "hex_digits c =
     [hexdigit (c div 4096 mod 16), hexdigit (c div 256 mod 16),
      hexdigit (c div 16 mod 16), hexdigit (c mod 16)]"

definition unicode_escape :: "nat \<Rightarrow> jstring" where
  "unicode_escape c = 92 # 117 # hex_digits c"

definition is_high :: "nat \<Rightarrow> bool" where
  "is_high c \<longleftrightarrow> 55296 \<le> c \<and> c \<le> 56319"

definition is_low :: "nat \<Rightarrow> bool" where
  "is_low c \<longleftrightarrow> 56320 \<le> c \<and> c \<le> 57343"

definition quote_unit :: "nat \<Rightarrow> jstring" where
  "quote_unit c =
     (if c = 8 then [92, 98]
      else if c = 9 then [92, 116]
      else if c = 10 then [92, 110]
      else if c = 12 then [92, 102]
      else if c = 13 then [92, 114]
      else if c = 34 then [92, 34]
      else if c = 92 then [92, 92]
      else if c < 32 \<or> is_high c \<or> is_low c then unicode_escape c
      else [c])"

fun quote_units :: "jstring \<Rightarrow> jstring" where
  "quote_units [] = []"
| "quote_units [c] = quote_unit c"
| "quote_units (h # l # cs) =
     (if is_high h \<and> is_low l then h # l # quote_units cs
      else quote_unit h @ quote_units (l # cs))"

definition QuoteJSONString :: "jstring \<Rightarrow> jstring" where
  "QuoteJSONString s = 34 # quote_units s @ [34]"

subsection \<open>JSON.parse\<close>

fun skip_ws :: "jstring \<Rightarrow> jstring" where
  "skip_ws [] = []"
| "skip_ws (c # cs) = (if c = 32 \<or> c = 9 \<or> c = 10 \<or> c = 13 then skip_ws cs else c # cs)"

definition hexval :: "nat \<Rightarrow> nat option" where
  "hexval c =
     (if 48 \<le> c \<and> c \<le> 57 then Some (c - 48)
      else if 97 \<le> c \<and> c \<le> 102 then Some (c - 87)
      else if 65 \<le> c \<and> c \<le> 70 then Some (c - 55)
      else None)"

definition hex4 :: "nat \<Rightarrow> nat \<Rightarrow> nat \<Rightarrow> nat \<Rightarrow> nat option" where
  "hex4 a b c d =
     (case (hexval a, hexval b, hexval c, hexval d) of
        (Some x, Some y, Some z, Some w) \<Rightarrow> Some (((x * 16 + y) * 16 + z) * 16 + w)
      | _ \<Rightarrow> None)"

definition simple_escape :: "nat \<Rightarrow> nat option" where
  "simple_escape e =
     (if e = 34 then Some 34
      else if e = 92 then Some 92
      else if e = 47 then Some 47
      else if e = 98 then Some 8
      else if e = 102 then Some 12
      else if e = 110 then Some 10
      else if e = 114 then Some 13
      else if e = 116 then Some 9
      else None)"

fun parse_chars :: "jstring \<Rightarrow> jstring \<Rightarrow> (jstring \<times> jstring) option" where
  "parse_chars [] acc = None"
| "parse_chars (c # cs) acc =
     (if c = 34 then Some (rev acc, cs)
      else if c = 92 then
        (case cs of
           [] \<Rightarrow> None
         | e # r \<Rightarrow>
             if e = 117 then
               (case r of
                  a # b # c' # d # r' \<Rightarrow>
                    (case hex4 a b c' d of
                       None \<Rightarrow> None
                     | Some v \<Rightarrow> parse_chars r' (v # acc))
                | _ \<Rightarrow> None)
             else
               (case simple_escape e of
                  None \<Rightarrow> None
                | Some v \<Rightarrow> parse_chars r (v # acc)))
      else if c < 32 then None
      else parse_chars cs (c # acc))"

fun parse_digits :: "jstring \<Rightarrow> jstring \<times> jstring" where
  "parse_digits [] = ([], [])"
| "parse_digits (c # cs) =
     (if 48 \<le> c \<and> c \<le> 57 then (case parse_digits cs of (ds, r) \<Rightarrow> (c # ds, r))
      else ([], c # cs))"

text \<open>
  A number of the JSON grammar: an optional minus, \<open>0\<close> or a digit from 1 to 9 with more
  digits, an optional fraction and an optional exponent. The value of the number is not
  needed here; the text that was read stands for it.
\<close>

definition parse_int :: "jstring \<Rightarrow> (jstring \<times> jstring) option" where
  "parse_int cs =
     (case cs of
        [] \<Rightarrow> None
      | c # r \<Rightarrow>
          if c = 48 then Some ([48], r)
          else if 49 \<le> c \<and> c \<le> 57 then (case parse_digits r of (ds, r') \<Rightarrow> Some (c # ds, r'))
          else None)"

definition parse_frac :: "jstring \<Rightarrow> (jstring \<times> jstring) option" where
  "parse_frac cs =
     (case cs of
        [] \<Rightarrow> Some ([], [])
      | c # r \<Rightarrow>
          if c = 46 then
            (case parse_digits r of (ds, r') \<Rightarrow> if ds = [] then None else Some (c # ds, r'))
          else Some ([], cs))"

definition parse_sign :: "jstring \<Rightarrow> jstring \<times> jstring" where
  "parse_sign cs =
     (case cs of
        [] \<Rightarrow> ([], [])
      | c # r \<Rightarrow> if c = 43 \<or> c = 45 then ([c], r) else ([], cs))"

definition parse_exp :: "jstring \<Rightarrow> (jstring \<times> jstring) option" where
  "parse_exp cs =
     (case cs of
        [] \<Rightarrow> Some ([], [])
      | c # r \<Rightarrow>
          if c = 101 \<or> c = 69 then
            (case parse_sign r of (sg, r1) \<Rightarrow>
               (case parse_digits r1 of (ds, r2) \<Rightarrow>
                  if ds = [] then None else Some (c # sg @ ds, r2)))
          else Some ([], cs))"

definition parse_number :: "jstring \<Rightarrow> (jstring \<times> jstring) option" where
  "parse_number cs =
     (case (case cs of [] \<Rightarrow> ([], []) | c # r \<Rightarrow> if c = 45 then ([c], r) else ([], cs)) of
        (sg, r0) \<Rightarrow>
          (case parse_int r0 of
             None \<Rightarrow> None
           | Some (i, r1) \<Rightarrow>
               (case parse_frac r1 of
                  None \<Rightarrow> None
                | Some (f, r2) \<Rightarrow>
                    (case parse_exp r2 of
                       None \<Rightarrow> None
                     | Some (e, r3) \<Rightarrow> Some (sg @ i @ f @ e, r3)))))"

fun strip_prefix :: "jstring \<Rightarrow> jstring \<Rightarrow> jstring option" where
  "strip_prefix [] cs = Some cs"
| "strip_prefix (p # ps) [] = None"
| "strip_prefix (p # ps) (c # cs) = (if p = c then strip_prefix ps cs else None)"

text \<open>
  A property defined twice keeps its place and takes the later value.
\<close>

fun define_property :: "jstring \<Rightarrow> json \<Rightarrow> (jstring \<times> json) list \<Rightarrow> (jstring \<times> json) list" where
  "define_property k v [] = [(k, v)]"
| "define_property k v ((k', v') # kvs) =
     (if k' = k then (k, v) # kvs else (k', v') # define_property k v kvs)"

text \<open>
  The parser of values. Each call works on a text shorter than the text of its caller; the
  first argument bounds the number of nested calls, and \<open>JSON_parse\<close> starts with more
  than any text needs. A text that is no JSON gives \<open>None\<close>.
\<close>

fun parse_value :: "nat \<Rightarrow> jstring \<Rightarrow> (json \<times> jstring) option"
  and parse_elements :: "nat \<Rightarrow> jstring \<Rightarrow> json list \<Rightarrow> (json \<times> jstring) option"
  and parse_members :: "nat \<Rightarrow> jstring \<Rightarrow> (jstring \<times> json) list \<Rightarrow> (json \<times> jstring) option"
where
  "parse_value 0 cs = None"
| "parse_value (Suc n) cs =
     (case skip_ws cs of
        [] \<Rightarrow> None
      | c # r \<Rightarrow>
          if c = 123 then
            (case skip_ws r of
               [] \<Rightarrow> None
             | c' # r' \<Rightarrow> if c' = 125 then Some (JsObject [], r') else parse_members n (c' # r') [])
          else if c = 91 then
            (case skip_ws r of
               [] \<Rightarrow> None
             | c' # r' \<Rightarrow> if c' = 93 then Some (JsArray [], r') else parse_elements n (c' # r') [])
          else if c = 34 then
            (case parse_chars r [] of
               None \<Rightarrow> None
             | Some (s, r') \<Rightarrow> Some (JsString s, r'))
          else if c = 116 then
            (case strip_prefix [114, 117, 101] r of
               None \<Rightarrow> None
             | Some r' \<Rightarrow> Some (JsBool True, r'))
          else if c = 102 then
            (case strip_prefix [97, 108, 115, 101] r of
               None \<Rightarrow> None
             | Some r' \<Rightarrow> Some (JsBool False, r'))
          else if c = 110 then
            (case strip_prefix [117, 108, 108] r of
               None \<Rightarrow> None
             | Some r' \<Rightarrow> Some (JsNull, r'))
          else
            (case parse_number (c # r) of
               None \<Rightarrow> None
             | Some (lx, r') \<Rightarrow> Some (JsNumber lx, r')))"
| "parse_elements 0 cs acc = None"
| "parse_elements (Suc n) cs acc =
     (case parse_value n cs of
        None \<Rightarrow> None
      | Some (v, r) \<Rightarrow>
          (case skip_ws r of
             [] \<Rightarrow> None
           | c # r' \<Rightarrow>
               if c = 44 then parse_elements n r' (acc @ [v])
               else if c = 93 then Some (JsArray (acc @ [v]), r')
               else None))"
| "parse_members 0 cs acc = None"
| "parse_members (Suc n) cs acc =
     (case skip_ws cs of
        [] \<Rightarrow> None
      | c # r \<Rightarrow>
          if c = 34 then
            (case parse_chars r [] of
               None \<Rightarrow> None
             | Some (k, r1) \<Rightarrow>
                 (case skip_ws r1 of
                    [] \<Rightarrow> None
                  | c1 # r2 \<Rightarrow>
                      if c1 = 58 then
                        (case parse_value n r2 of
                           None \<Rightarrow> None
                         | Some (v, r3) \<Rightarrow>
                             (case skip_ws r3 of
                                [] \<Rightarrow> None
                              | c3 # r4 \<Rightarrow>
                                  if c3 = 44 then parse_members n r4 (define_property k v acc)
                                  else if c3 = 125 then Some (JsObject (define_property k v acc), r4)
                                  else None))
                      else None))
          else None)"

datatype js_error = SyntaxError

definition JSON_parse :: "jstring \<Rightarrow> js_error + json" where
  "JSON_parse text =
     (case parse_value (2 * length text + 2) text of
        None \<Rightarrow> Inl SyntaxError
      | Some (v, r) \<Rightarrow> if skip_ws r = [] then Inr v else Inl SyntaxError)"

subsection \<open>JSON.stringify of an object whose properties are strings\<close>

fun stringify_properties :: "(jstring \<times> jstring) list \<Rightarrow> jstring" where
  "stringify_properties [] = []"
| "stringify_properties [(k, v)] = QuoteJSONString k @ 58 # QuoteJSONString v"
| "stringify_properties ((k, v) # kvs) =
     QuoteJSONString k @ 58 # QuoteJSONString v @ 44 # stringify_properties kvs"

definition JSON_stringify :: "(jstring \<times> jstring) list \<Rightarrow> jstring" where
  "JSON_stringify kvs = 123 # stringify_properties kvs @ [125]"

subsection \<open>localStorage and the three functions\<close>

text \<open>\<^verbatim>\<open>interface WalletCredentials\<close>\<close>

record credentials =
  privateKey :: jstring
  wsNode :: jstring
  httpNode :: jstring

text \<open>The object as it is written, and the value that reading it back should give.\<close>

definition credentials_properties :: "credentials \<Rightarrow> (jstring \<times> jstring) list" where
  "credentials_properties c =
     [(ascii ''privateKey'', privateKey c), (ascii ''wsNode'', wsNode c),
      (ascii ''httpNode'', httpNode c)]"

definition credentials_value :: "credentials \<Rightarrow> json" where
  "credentials_value c =
     JsObject [(ascii ''privateKey'', JsString (privateKey c)),
               (ascii ''wsNode'', JsString (wsNode c)),
               (ascii ''httpNode'', JsString (httpNode c))]"

text \<open>
  \<^verbatim>\<open>localStorage\<close> maps keys to texts: \<^verbatim>\<open>getItem\<close> of a key that is not there gives
  \<^verbatim>\<open>null\<close>, \<^verbatim>\<open>setItem\<close> and \<^verbatim>\<open>removeItem\<close> update the map. The store takes texts of
  every length (no quota) and can always be reached.
\<close>

type_synonym storage = "jstring \<rightharpoonup> jstring"

definition storage_key :: jstring where
  "storage_key = ascii ''wallet_credentials''"

definition saveWalletCredentials :: "storage \<Rightarrow> credentials \<Rightarrow> storage" where
  "saveWalletCredentials st c = st(storage_key \<mapsto> JSON_stringify (credentials_properties c))"

text \<open>
  \<^verbatim>\<open>JSON.parse\<close> throws a SyntaxError on a text that is no JSON; the \<^verbatim>\<open>catch\<close> turns
  it into \<^verbatim>\<open>null\<close>. A stored text that is missing or empty is falsy.
\<close>

definition getWalletCredentials :: "storage \<Rightarrow> js_error + json" where
  "getWalletCredentials st =
     (case st storage_key of
        None \<Rightarrow> Inr JsNull
      | Some stored \<Rightarrow>
          if stored = [] then Inr JsNull
          else (case JSON_parse stored of
                  Inl e \<Rightarrow> Inr JsNull
                | Inr v \<Rightarrow> Inr v))"

definition clearWalletCredentials :: "storage \<Rightarrow> storage" where
  "clearWalletCredentials st = st(storage_key := None)"

section \<open>Notions used in the statements\<close>

subsection \<open>The dispatcher and its callers\<close>


text \<open>
  A request that the dispatcher relays: a supported method, and for \<^verbatim>\<open>signIn\<close> a payload
  with an integer nonce.
\<close>

definition valid_request :: "jsval \<Rightarrow> bool" where
  "valid_request m \<longleftrightarrow>
     \<not> nullish m \<and> supported (getp m ''method'') \<and>
     \<not> (getp m ''method'' = JStr ''signIn'' \<and>
        (\<not> truthy (getp m ''payload'') \<or> \<not> isInteger (getp (getp m ''payload'') ''nonce'')))"

fun expected :: "string \<Rightarrow> nat \<Rightarrow> bg_event list \<Rightarrow> jsval option" where
  "expected rid left [] = None"
| "expected rid left (Message m c r # es) =
     (if matches rid m then Some (forwarded m) else expected rid left es)"
| "expected rid left (Elapse d # es) =
     (if left \<le> d then Some timeout_error else expected rid (left - d) es)"

definition first_response :: "nat \<Rightarrow> bg_effect list \<Rightarrow> jsval option" where
  "first_response ch fx = (case responses ch fx of [] \<Rightarrow> None | v # vs \<Rightarrow> Some v)"

fun uses_channel :: "nat \<Rightarrow> bg_event \<Rightarrow> bool" where
  "uses_channel ch (Message m c r) = (c = ch)"
| "uses_channel ch (Elapse d) = False"

definition well_formed :: "bg \<Rightarrow> bool" where
  "well_formed b \<longleftrightarrow>
     (\<forall>l \<in> set (listeners b). l_id l < next_id b) \<and>
     (\<forall>t \<in> set (timers b). t_listener t < next_id b)"

definition unused :: "nat \<Rightarrow> bg \<Rightarrow> bool" where
  "unused ch b \<longleftrightarrow>
     (\<forall>l \<in> set (listeners b). l_sendResponse l \<noteq> ch) \<and>
     (\<forall>t \<in> set (timers b). t_sendResponse t \<noteq> ch)"

definition armed :: "bg \<Rightarrow> nat \<Rightarrow> string \<Rightarrow> nat \<Rightarrow> nat \<Rightarrow> bool" where
  "armed b i rid ch deadline \<longleftrightarrow>
     well_formed b \<and> i < next_id b \<and> clock b < deadline \<and>
     filter (\<lambda>l. l_sendResponse l = ch) (listeners b) =
       [\<lparr>l_id = i, l_requestId = rid, l_sendResponse = ch\<rparr>] \<and>
     filter (\<lambda>l. l_id l = i) (listeners b) =
       [\<lparr>l_id = i, l_requestId = rid, l_sendResponse = ch\<rparr>] \<and>
     filter (\<lambda>t. t_sendResponse t = ch) (timers b) =
       [\<lparr>t_due = deadline, t_listener = i, t_sendResponse = ch\<rparr>] \<and>
     filter (\<lambda>t. t_listener t = i) (timers b) =
       [\<lparr>t_due = deadline, t_listener = i, t_sendResponse = ch\<rparr>]"

fun elapsed :: "bg_event list \<Rightarrow> nat" where
  "elapsed [] = 0"
| "elapsed (Message m c r # es) = elapsed es"
| "elapsed (Elapse d # es) = d + elapsed es"

text \<open>
  The answers a caller is sent while the trace runs, for a request with \<open>left\<close>
  milliseconds to its timeout: the first matching panel response while the dispatcher
  still listens for it, and the timeout error when the time is up.
\<close>

fun calls :: "string \<Rightarrow> nat \<Rightarrow> bool \<Rightarrow> bg_event list \<Rightarrow> jsval list" where
  "calls rid left listening [] = []"
| "calls rid left listening (Message m c r # es) =
     (if listening \<and> matches rid m then forwarded m # calls rid left False es
      else calls rid left listening es)"
| "calls rid left listening (Elapse d # es) =
     (if left \<le> d then [timeout_error] else calls rid (left - d) listening es)"

text \<open>
  The state of a request whose panel response has been passed on: its listener is gone, its
  timeout is still set.
\<close>

definition answered :: "bg \<Rightarrow> nat \<Rightarrow> nat \<Rightarrow> bool" where
  "answered b ch deadline \<longleftrightarrow>
     clock b < deadline \<and>
     filter (\<lambda>l. l_sendResponse l = ch) (listeners b) = [] \<and>
     (\<exists>i. filter (\<lambda>t. t_sendResponse t = ch) (timers b) =
            [\<lparr>t_due = deadline, t_listener = i, t_sendResponse = ch\<rparr>])"

subsection \<open>The panel\<close>

text \<open>
  A message the panel's listener acts on.
\<close>

definition is_panel_request :: "jsval \<Rightarrow> bool" where
  "is_panel_request request \<longleftrightarrow>
     truthy request \<and> getp request ''type'' = JStr ''feeless-wallet-panel-request''"

text \<open>
  A client for the examples: a key, and a signature that shows what was signed.
\<close>

definition demo_client :: wallet_client where
  "demo_client = \<lparr>getPublic = JStr ''pk'', signMessage = (\<lambda>m. JObj [(''signed'', m)])\<rparr>"

text \<open>
  The number of pending requests.
\<close>

definition pending_count :: "panel \<Rightarrow> nat" where
  "pending_count s = (case modal s of None \<Rightarrow> 0 | Some m \<Rightarrow> 1)"

text \<open>
  The pending request that \<^verbatim>\<open>requestAction\<close> makes.
\<close>

definition in_process_pending :: "wallet_action \<Rightarrow> nat \<Rightarrow> pending" where
  "in_process_pending a p =
     \<lparr>action = a, resolve = Some p, reject = Some p, external = Some False,
      requestId = JUndefined\<rparr>"

text \<open>
  A panel request that opens the approval dialog: one of the five prompting methods, with
  a payload to read where the method reads one.
\<close>

definition prompts :: "jsval \<Rightarrow> bool" where
  "prompts request \<longleftrightarrow>
     getp request ''method'' = JStr ''getPublicKey'' \<or>
     (\<not> nullish (getp request ''payload'') \<and>
      (getp request ''method'' = JStr ''signMessage'' \<or>
       getp request ''method'' = JStr ''signIn'' \<or>
       getp request ''method'' = JStr ''send'' \<or>
       getp request ''method'' = JStr ''mintToken''))"

text \<open>
  The calls of Wallet Client methods among the effects.
\<close>

fun client_calls :: "effect list \<Rightarrow> client_call list" where
  "client_calls [] = []"
| "client_calls (ClientCall c # fx) = c # client_calls fx"
| "client_calls (e # fx) = client_calls fx"

text \<open>The decimal numeral of an integer, as the claim about signIn words it.\<close>

definition decimal :: "int \<Rightarrow> string" where
  "decimal i = (if i < 0 then ''-'' @ dec (nat (- i)) else dec (nat i))"

text \<open>
  The actions whose approval does not wait for the Wallet Client.
\<close>

definition answered_at_once :: "action_kind \<Rightarrow> bool" where
  "answered_at_once k \<longleftrightarrow>
     (case k of Send amount to token unlock \<Rightarrow> False
              | MintToken airdrop miningReward token \<Rightarrow> False
              | _ \<Rightarrow> True)"

section \<open>Properties of the dispatcher\<close>

lemma responses_append [simp]: "responses ch (xs @ ys) = responses ch xs @ responses ch ys"
  by (induction xs rule: responses.induct) auto

lemma broadcasts_append [simp]: "broadcasts (xs @ ys) = broadcasts xs @ broadcasts ys"
  by (induction xs rule: broadcasts.induct) auto

lemma responses_map_SendResponse:
  "responses ch (map (\<lambda>x. SendResponse (f x) v) xs) = map (\<lambda>x. v) (filter (\<lambda>x. f x = ch) xs)"
  by (induction xs) auto

lemma broadcasts_map_SendResponse [simp]:
  "broadcasts (map (\<lambda>x. SendResponse (f x) v) xs) = []"
  by (induction xs) auto

lemma responses_main_other:
  "c \<noteq> ch \<Longrightarrow> responses ch (snd (main_listener b m c r)) = []"
  by (simp add: main_listener_def Let_def)

lemma filter_single_mem: "filter P xs = [a] \<Longrightarrow> x \<in> set xs \<Longrightarrow> P x \<Longrightarrow> x = a"
proof -
  assume h: "filter P xs = [a]" and x: "x \<in> set xs" "P x"
  from x have "x \<in> set (filter P xs)" by simp
  then show "x = a" unfolding h by simp
qed

lemma filter_swap: "filter P (filter R xs) = filter R (filter P xs)"
  by (induction xs) auto

lemma filter_single_keep: "filter P xs = [a] \<Longrightarrow> R a \<Longrightarrow> filter P (filter R xs) = [a]"
proof -
  assume h: "filter P xs = [a]" and r: "R a"
  have "filter P (filter R xs) = filter R (filter P xs)" by (rule filter_swap)
  also have "\<dots> = filter R [a]" by (simp only: h)
  finally show ?thesis using r by simp
qed

lemma filter_single_drop: "filter P xs = [a] \<Longrightarrow> \<not> R a \<Longrightarrow> filter P (filter R xs) = []"
proof -
  assume h: "filter P xs = [a]" and r: "\<not> R a"
  have "filter P (filter R xs) = filter R (filter P xs)" by (rule filter_swap)
  also have "\<dots> = filter R [a]" by (simp only: h)
  finally show ?thesis using r by simp
qed

lemma armed_after_request:
  assumes "well_formed b" "unused ch b" "valid_request m"
  shows "armed (fst (bg_step b (Message m ch rid))) (next_id b) rid ch (clock b + timeout_ms)
         \<and> clock (fst (bg_step b (Message m ch rid))) = clock b
         \<and> responses ch (snd (bg_step b (Message m ch rid))) = []
         \<and> broadcasts (snd (bg_step b (Message m ch rid))) =
             [panel_request (getp m ''method'') (getp m ''payload'') (JStr rid)]"
proof -
  let ?hit = "filter (\<lambda>l. matches (l_requestId l) m) (listeners b)"
  have old: "\<forall>l \<in> set (listeners b). l_id l < next_id b \<and> l_sendResponse l \<noteq> ch"
    and oldt: "\<forall>t \<in> set (timers b). t_listener t < next_id b \<and> t_sendResponse t \<noteq> ch"
    using assms(1,2) by (auto simp: well_formed_def unused_def)
  have keep: "next_id b \<notin> l_id ` set ?hit"
    using old by auto
  have main: "main_listener b m ch rid =
     (b\<lparr>listeners := listeners b @
                     [\<lparr>l_id = next_id b, l_requestId = rid, l_sendResponse = ch\<rparr>],
        timers := timers b @
                     [\<lparr>t_due = clock b + timeout_ms, t_listener = next_id b,
                       t_sendResponse = ch\<rparr>],
        next_id := Suc (next_id b)\<rparr>,
      [Broadcast (panel_request (getp m ''method'') (getp m ''payload'') (JStr rid))])"
    using assms(3) by (auto simp: main_listener_def valid_request_def Let_def)
  have f1: "filter (\<lambda>l. l_sendResponse l = ch) (filter (\<lambda>l. l_id l \<notin> l_id ` set ?hit) (listeners b)) = []"
    using old by (auto simp: filter_empty_conv)
  have f2: "filter (\<lambda>l. l_id l = next_id b) (filter (\<lambda>l. l_id l \<notin> l_id ` set ?hit) (listeners b)) = []"
    using old by (auto simp: filter_empty_conv)
  have f3: "filter (\<lambda>t. t_sendResponse t = ch) (timers b) = []"
    using oldt by (auto simp: filter_empty_conv)
  have f4: "filter (\<lambda>t. t_listener t = next_id b) (timers b) = []"
    using oldt by (auto simp: filter_empty_conv)
  have f5: "filter (\<lambda>l. l_sendResponse l = ch) ?hit = []"
    using old by (auto simp: filter_empty_conv)
  have wf: "well_formed (fst (bg_step b (Message m ch rid)))"
    using old oldt by (auto simp: well_formed_def onMessage_def main Let_def less_Suc_eq)
  show ?thesis
    using keep f1 f2 f3 f4 f5 wf
    by (simp add: armed_def onMessage_def main Let_def timeout_ms_def responses_map_SendResponse)
qed


lemma main_listener_cases:
  "main_listener b m c r = (b, []) \<or>
   main_listener b m c r = (b\<lparr>next_id := Suc (next_id b)\<rparr>, [SendResponse c nonce_error]) \<or>
   main_listener b m c r =
       (b\<lparr>listeners := listeners b @ [\<lparr>l_id = next_id b, l_requestId = r, l_sendResponse = c\<rparr>],
          timers := timers b @ [\<lparr>t_due = clock b + timeout_ms, t_listener = next_id b,
                                 t_sendResponse = c\<rparr>],
          next_id := Suc (next_id b)\<rparr>,
        [Broadcast (panel_request (getp m ''method'') (getp m ''payload'') (JStr r))])"
  by (simp add: main_listener_def Let_def)

lemma armed_message_other:
  assumes a: "armed b i rid ch dl" and c: "c \<noteq> ch" and nm: "\<not> matches rid m"
  shows "armed (fst (onMessage b m c r)) i rid ch dl
         \<and> clock (fst (onMessage b m c r)) = clock b
         \<and> responses ch (snd (onMessage b m c r)) = []"
proof -
  let ?ours = "\<lparr>l_id = i, l_requestId = rid, l_sendResponse = ch\<rparr>"
  let ?ourt = "\<lparr>t_due = dl, t_listener = i, t_sendResponse = ch\<rparr>"
  let ?hit = "filter (\<lambda>l. matches (l_requestId l) m) (listeners b)"
  let ?keep = "\<lambda>l. l_id l \<notin> l_id ` set ?hit"
  from a have wf: "well_formed b" and i: "i < next_id b" and clk: "clock b < dl"
    and lc: "filter (\<lambda>l. l_sendResponse l = ch) (listeners b) = [?ours]"
    and li: "filter (\<lambda>l. l_id l = i) (listeners b) = [?ours]"
    and tc: "filter (\<lambda>t. t_sendResponse t = ch) (timers b) = [?ourt]"
    and ti: "filter (\<lambda>t. t_listener t = i) (timers b) = [?ourt]"
    by (simp_all add: armed_def)
  have old: "\<forall>l \<in> set (listeners b). l_id l < next_id b"
    and oldt: "\<forall>t \<in> set (timers b). t_listener t < next_id b"
    using wf by (auto simp: well_formed_def)
  have keep_ours: "?keep ?ours"
  proof
    assume "l_id ?ours \<in> l_id ` set ?hit"
    then obtain l where l: "l \<in> set (listeners b)" "matches (l_requestId l) m" "l_id l = i"
      by auto
    from filter_single_mem [OF li l(1) l(3)] l(2) nm show False by simp
  qed
  have k1: "filter (\<lambda>l. l_sendResponse l = ch) (filter ?keep (listeners b)) = [?ours]"
    by (rule filter_single_keep [where R = ?keep, OF lc keep_ours])
  have k2: "filter (\<lambda>l. l_id l = i) (filter ?keep (listeners b)) = [?ours]"
    by (rule filter_single_keep [where R = ?keep, OF li keep_ours])
  have k3: "filter (\<lambda>l. l_sendResponse l = ch) ?hit = []"
    by (rule filter_single_drop [OF lc]) (simp add: nm)
  have fresh: "next_id b \<notin> l_id ` set ?hit"
    using old by auto
  from main_listener_cases [of b m c r] show ?thesis
  proof (elim disjE)
    assume ignored: "main_listener b m c r = (b, [])"
    have "well_formed (fst (onMessage b m c r))"
      using old oldt by (auto simp: well_formed_def onMessage_def ignored Let_def)
    then show ?thesis
      using i clk c k1 k2 k3 tc ti
      by (simp add: armed_def onMessage_def ignored Let_def responses_map_SendResponse)
  next
    assume refused: "main_listener b m c r =
      (b\<lparr>next_id := Suc (next_id b)\<rparr>, [SendResponse c nonce_error])"
    have "well_formed (fst (onMessage b m c r))"
      using old oldt by (auto simp: well_formed_def onMessage_def refused Let_def less_Suc_eq)
    then show ?thesis
      using i clk c k1 k2 k3 tc ti
      by (simp add: armed_def onMessage_def refused Let_def responses_map_SendResponse)
  next
    assume relayed: "main_listener b m c r =
       (b\<lparr>listeners := listeners b @ [\<lparr>l_id = next_id b, l_requestId = r, l_sendResponse = c\<rparr>],
          timers := timers b @ [\<lparr>t_due = clock b + timeout_ms, t_listener = next_id b,
                                 t_sendResponse = c\<rparr>],
          next_id := Suc (next_id b)\<rparr>,
        [Broadcast (panel_request (getp m ''method'') (getp m ''payload'') (JStr r))])"
    have "well_formed (fst (onMessage b m c r))"
      using old oldt by (auto simp: well_formed_def onMessage_def relayed Let_def less_Suc_eq)
    then show ?thesis
      using i clk c k1 k2 k3 tc ti fresh
      by (simp add: armed_def onMessage_def relayed Let_def responses_map_SendResponse)
  qed
qed

lemma armed_message_match:
  assumes a: "armed b i rid ch dl" and c: "c \<noteq> ch" and m: "matches rid m"
  shows "responses ch (snd (onMessage b m c r)) = [forwarded m]"
proof -
  let ?ours = "\<lparr>l_id = i, l_requestId = rid, l_sendResponse = ch\<rparr>"
  from a have lc: "filter (\<lambda>l. l_sendResponse l = ch) (listeners b) = [?ours]"
    by (simp add: armed_def)
  have "filter (\<lambda>l. l_sendResponse l = ch)
          (filter (\<lambda>l. matches (l_requestId l) m) (listeners b)) = [?ours]"
    by (rule filter_single_keep [OF lc]) (simp add: m)
  then show ?thesis
    using c by (simp add: onMessage_def Let_def responses_map_SendResponse responses_main_other)
qed

lemma armed_elapse_before:
  assumes a: "armed b i rid ch dl" and d: "clock b + d < dl"
  shows "armed (fst (elapse b d)) i rid ch dl
         \<and> clock (fst (elapse b d)) = clock b + d
         \<and> responses ch (snd (elapse b d)) = []"
proof -
  let ?ours = "\<lparr>l_id = i, l_requestId = rid, l_sendResponse = ch\<rparr>"
  let ?ourt = "\<lparr>t_due = dl, t_listener = i, t_sendResponse = ch\<rparr>"
  let ?fired = "filter (\<lambda>t. t_due t \<le> clock b + d) (timers b)"
  let ?keep = "\<lambda>l. l_id l \<notin> t_listener ` set ?fired"
  from a have wf: "well_formed b" and i: "i < next_id b"
    and lc: "filter (\<lambda>l. l_sendResponse l = ch) (listeners b) = [?ours]"
    and li: "filter (\<lambda>l. l_id l = i) (listeners b) = [?ours]"
    and tc: "filter (\<lambda>t. t_sendResponse t = ch) (timers b) = [?ourt]"
    and ti: "filter (\<lambda>t. t_listener t = i) (timers b) = [?ourt]"
    by (simp_all add: armed_def)
  have keep_ours: "?keep ?ours"
  proof
    assume "l_id ?ours \<in> t_listener ` set ?fired"
    then obtain t where t: "t \<in> set (timers b)" "t_due t \<le> clock b + d" "t_listener t = i"
      by auto
    from filter_single_mem [OF ti t(1) t(3)] t(2) d show False by simp
  qed
  have k1: "filter (\<lambda>l. l_sendResponse l = ch) (filter ?keep (listeners b)) = [?ours]"
    by (rule filter_single_keep [where R = ?keep, OF lc keep_ours])
  have k2: "filter (\<lambda>l. l_id l = i) (filter ?keep (listeners b)) = [?ours]"
    by (rule filter_single_keep [where R = ?keep, OF li keep_ours])
  have k3: "filter (\<lambda>t. t_sendResponse t = ch) (filter (\<lambda>t. \<not> t_due t \<le> clock b + d) (timers b)) = [?ourt]"
    by (rule filter_single_keep [OF tc]) (use d in simp)
  have k4: "filter (\<lambda>t. t_listener t = i) (filter (\<lambda>t. \<not> t_due t \<le> clock b + d) (timers b)) = [?ourt]"
    by (rule filter_single_keep [OF ti]) (use d in simp)
  have k5: "filter (\<lambda>t. t_sendResponse t = ch) ?fired = []"
    by (rule filter_single_drop [OF tc]) (use d in simp)
  have "well_formed (fst (elapse b d))"
    using wf by (auto simp: well_formed_def elapse_def Let_def)
  then show ?thesis
    using i d k1 k2 k3 k4 k5
    by (simp add: armed_def elapse_def Let_def responses_map_SendResponse)
qed

lemma armed_elapse_due:
  assumes a: "armed b i rid ch dl" and d: "dl \<le> clock b + d"
  shows "responses ch (snd (elapse b d)) = [timeout_error]"
proof -
  let ?ourt = "\<lparr>t_due = dl, t_listener = i, t_sendResponse = ch\<rparr>"
  from a have tc: "filter (\<lambda>t. t_sendResponse t = ch) (timers b) = [?ourt]"
    by (simp add: armed_def)
  have "filter (\<lambda>t. t_sendResponse t = ch) (filter (\<lambda>t. t_due t \<le> clock b + d) (timers b)) = [?ourt]"
    by (rule filter_single_keep [OF tc]) (use d in simp)
  then show ?thesis
    by (simp add: elapse_def Let_def responses_map_SendResponse)
qed

lemma first_response_append:
  "first_response ch (xs @ ys) =
     (case responses ch xs of [] \<Rightarrow> first_response ch ys | v # vs \<Rightarrow> Some v)"
  by (simp add: first_response_def split: list.splits)

lemma armed_first_response:
  "armed b i rid ch dl \<Longrightarrow> \<forall>e \<in> set es. \<not> uses_channel ch e \<Longrightarrow>
   first_response ch (snd (bg_run b es)) = expected rid (dl - clock b) es"
proof (induction es arbitrary: b)
  case Nil
  then show ?case by (simp add: first_response_def)
next
  case (Cons e es)
  show ?case
  proof (cases e)
    case (Message m c r)
    with Cons.prems have c: "c \<noteq> ch" by simp
    show ?thesis
    proof (cases "matches rid m")
      case True
      from armed_message_match [OF Cons.prems(1) c True]
      show ?thesis by (simp add: Message True case_prod_beta first_response_append)
    next
      case False
      from armed_message_other [OF Cons.prems(1) c False, of r]
      have a: "armed (fst (onMessage b m c r)) i rid ch dl"
        and k: "clock (fst (onMessage b m c r)) = clock b"
        and n: "responses ch (snd (onMessage b m c r)) = []" by simp_all
      from Cons.IH [OF a] Cons.prems(2)
      show ?thesis by (simp add: Message False case_prod_beta first_response_append n k)
    qed
  next
    case (Elapse d)
    from Cons.prems(1) have clk: "clock b < dl" by (simp add: armed_def)
    show ?thesis
    proof (cases "dl \<le> clock b + d")
      case True
      from True have "dl - clock b \<le> d" by simp
      with armed_elapse_due [OF Cons.prems(1) True]
      show ?thesis by (simp add: Elapse case_prod_beta first_response_append)
    next
      case False
      then have d: "clock b + d < dl" by simp
      from armed_elapse_before [OF Cons.prems(1) d]
      have a: "armed (fst (elapse b d)) i rid ch dl"
        and k: "clock (fst (elapse b d)) = clock b + d"
        and n: "responses ch (snd (elapse b d)) = []" by simp_all
      from d have nd: "\<not> dl - clock b \<le> d"
        by simp
      from Cons.IH [OF a] Cons.prems(2)
      show ?thesis by (simp add: Elapse case_prod_beta first_response_append n k nd)
    qed
  qed
qed

lemma expected_in_time:
  "0 < left \<Longrightarrow> left \<le> elapsed es \<Longrightarrow> expected rid left es \<noteq> None"
  by (induction rid left es rule: expected.induct) auto

lemma unused_message:
  assumes u: "unused ch b" and c: "c \<noteq> ch"
  shows "unused ch (fst (onMessage b m c r)) \<and> responses ch (snd (onMessage b m c r)) = []"
proof -
  have "filter (\<lambda>l. l_sendResponse l = ch)
          (filter (\<lambda>l. matches (l_requestId l) m) (listeners b)) = []"
    using u by (auto simp: unused_def filter_empty_conv)
  moreover have "unused ch (fst (onMessage b m c r))"
    using main_listener_cases [of b m c r] u c
    by (auto simp: unused_def onMessage_def Let_def)
  ultimately show ?thesis
    using c by (simp add: onMessage_def Let_def responses_map_SendResponse responses_main_other)
qed

lemma unused_elapse:
  assumes u: "unused ch b"
  shows "unused ch (fst (elapse b d)) \<and> responses ch (snd (elapse b d)) = []"
  using u by (auto simp: unused_def elapse_def Let_def responses_map_SendResponse filter_empty_conv)

lemma unused_run:
  "unused ch b \<Longrightarrow> \<forall>e \<in> set es. \<not> uses_channel ch e \<Longrightarrow>
   responses ch (snd (bg_run b es)) = []"
proof (induction es arbitrary: b)
  case Nil
  then show ?case by simp
next
  case (Cons e es)
  show ?case
  proof (cases e)
    case (Message m c r)
    with Cons.prems have c: "c \<noteq> ch" by simp
    from unused_message [OF Cons.prems(1) c, of m r] Cons.IH Cons.prems(2)
    show ?thesis by (simp add: Message case_prod_beta)
  next
    case (Elapse d)
    from unused_elapse [OF Cons.prems(1), of d] Cons.IH Cons.prems(2)
    show ?thesis by (simp add: Elapse case_prod_beta)
  qed
qed

text \<open>
  Claim C3. A \<^verbatim>\<open>signIn\<close> message whose payload is missing (or otherwise falsy) or whose
  \<^verbatim>\<open>payload.nonce\<close> is not an integer is answered at once, on its own
  \<^verbatim>\<open>sendResponse\<close>, with \<^verbatim>\<open>{error: "Nonce must be an integer"}\<close>; nothing is
  broadcast to the panel, no timeout is set, and whatever arrives afterwards for other
  callers, this caller is sent nothing more.
\<close>

theorem invalid_signIn_refused:
  assumes "getp m ''method'' = JStr ''signIn''"
    and "\<not> truthy (getp m ''payload'') \<or> \<not> isInteger (getp (getp m ''payload'') ''nonce'')"
    and "unused ch b"
    and "\<forall>e \<in> set es. \<not> uses_channel ch e"
  shows "responses ch (snd (bg_step b (Message m ch rid))) = [nonce_error]
         \<and> broadcasts (snd (bg_step b (Message m ch rid))) = []
         \<and> timers (fst (bg_step b (Message m ch rid))) = timers b
         \<and> responses ch (snd (bg_run b (Message m ch rid # es))) = [nonce_error]"
proof -
  have nn: "\<not> nullish m" using assms(1) by (cases m) auto
  have main: "main_listener b m ch rid =
     (b\<lparr>next_id := Suc (next_id b)\<rparr>, [SendResponse ch nonce_error])"
    using assms(1,2) nn by (auto simp: main_listener_def supported_def Let_def)
  have none: "filter (\<lambda>l. l_sendResponse l = ch)
          (filter (\<lambda>l. matches (l_requestId l) m) (listeners b)) = []"
    using assms(3) by (auto simp: unused_def filter_empty_conv)
  have step: "responses ch (snd (bg_step b (Message m ch rid))) = [nonce_error]"
    using none by (simp add: onMessage_def main Let_def responses_map_SendResponse)
  have u: "unused ch (fst (bg_step b (Message m ch rid)))"
    using assms(3) by (auto simp: unused_def onMessage_def main Let_def)
  from unused_run [OF u assms(4)] step
  have run: "responses ch (snd (bg_run b (Message m ch rid # es))) = [nonce_error]"
    by (simp add: case_prod_beta)
  show ?thesis
    using step run by (simp add: onMessage_def main Let_def)
qed

lemma unused_iff:
  "unused ch b \<longleftrightarrow>
     filter (\<lambda>l. l_sendResponse l = ch) (listeners b) = [] \<and>
     filter (\<lambda>t. t_sendResponse t = ch) (timers b) = []"
  by (auto simp: unused_def filter_empty_conv)

lemma filter_single_in: "filter P xs = [a] \<Longrightarrow> a \<in> set xs"
proof -
  assume h: "filter P xs = [a]"
  have "a \<in> set (filter P xs)" unfolding h by simp
  then show ?thesis by simp
qed

lemma filter_none_keep: "filter P xs = [] \<Longrightarrow> filter P (filter R xs) = []"
  by (auto simp: filter_empty_conv)

lemma main_listener_other:
  assumes c: "c \<noteq> ch"
  shows "filter (\<lambda>l. l_sendResponse l = ch) (listeners (fst (main_listener b m c r))) =
           filter (\<lambda>l. l_sendResponse l = ch) (listeners b)
         \<and> filter (\<lambda>t. t_sendResponse t = ch) (timers (fst (main_listener b m c r))) =
           filter (\<lambda>t. t_sendResponse t = ch) (timers b)
         \<and> clock (fst (main_listener b m c r)) = clock b"
  using main_listener_cases [of b m c r] c by auto

lemma onMessage_parts:
  "listeners (fst (onMessage b m c r)) =
     filter (\<lambda>l. l_id l \<notin> l_id ` set (filter (\<lambda>l. matches (l_requestId l) m) (listeners b)))
       (listeners (fst (main_listener b m c r)))
   \<and> timers (fst (onMessage b m c r)) = timers (fst (main_listener b m c r))
   \<and> clock (fst (onMessage b m c r)) = clock (fst (main_listener b m c r))"
  by (simp add: onMessage_def Let_def)

lemma armed_message_match_state:
  assumes a: "armed b i rid ch dl" and c: "c \<noteq> ch" and m: "matches rid m"
  shows "answered (fst (onMessage b m c r)) ch dl \<and> clock (fst (onMessage b m c r)) = clock b"
proof -
  let ?ours = "\<lparr>l_id = i, l_requestId = rid, l_sendResponse = ch\<rparr>"
  let ?hit = "filter (\<lambda>l. matches (l_requestId l) m) (listeners b)"
  let ?keep = "\<lambda>l. l_id l \<notin> l_id ` set ?hit"
  from a have clk: "clock b < dl"
    and lc: "filter (\<lambda>l. l_sendResponse l = ch) (listeners b) = [?ours]"
    and tc: "filter (\<lambda>t. t_sendResponse t = ch) (timers b) =
               [\<lparr>t_due = dl, t_listener = i, t_sendResponse = ch\<rparr>]"
    by (simp_all add: armed_def)
  from filter_single_in [OF lc] have "?ours \<in> set (listeners b)" .
  then have "?ours \<in> set ?hit" using m by simp
  then have gone: "\<not> ?keep ?ours" by force
  have "filter (\<lambda>l. l_sendResponse l = ch) (filter ?keep (listeners (fst (main_listener b m c r)))) =
          filter ?keep (filter (\<lambda>l. l_sendResponse l = ch) (listeners (fst (main_listener b m c r))))"
    by (rule filter_swap)
  also have "\<dots> = filter ?keep [?ours]"
    using main_listener_other [OF c, of b m r] lc by simp
  also have "\<dots> = []" using gone by simp
  finally have l: "filter (\<lambda>l. l_sendResponse l = ch) (listeners (fst (onMessage b m c r))) = []"
    using onMessage_parts [of b m c r] by simp
  have t: "filter (\<lambda>t. t_sendResponse t = ch) (timers (fst (onMessage b m c r))) =
             [\<lparr>t_due = dl, t_listener = i, t_sendResponse = ch\<rparr>]"
    using onMessage_parts [of b m c r] main_listener_other [OF c, of b m r] tc by simp
  have k: "clock (fst (onMessage b m c r)) = clock b"
    using onMessage_parts [of b m c r] main_listener_other [OF c, of b m r] by simp
  show ?thesis
    unfolding answered_def using l t k clk by auto
qed


lemma answered_message:
  assumes a: "answered b ch dl" and c: "c \<noteq> ch"
  shows "answered (fst (onMessage b m c r)) ch dl
         \<and> clock (fst (onMessage b m c r)) = clock b
         \<and> responses ch (snd (onMessage b m c r)) = []"
proof -
  let ?hit = "filter (\<lambda>l. matches (l_requestId l) m) (listeners b)"
  let ?keep = "\<lambda>l. l_id l \<notin> l_id ` set ?hit"
  from a have clk: "clock b < dl"
    and lc: "filter (\<lambda>l. l_sendResponse l = ch) (listeners b) = []"
    by (simp_all add: answered_def)
  from a obtain i where tc: "filter (\<lambda>t. t_sendResponse t = ch) (timers b) =
               [\<lparr>t_due = dl, t_listener = i, t_sendResponse = ch\<rparr>]"
    by (auto simp: answered_def)
  have "filter (\<lambda>l. l_sendResponse l = ch) (filter ?keep (listeners (fst (main_listener b m c r)))) =
          filter ?keep (filter (\<lambda>l. l_sendResponse l = ch) (listeners (fst (main_listener b m c r))))"
    by (rule filter_swap)
  also have "\<dots> = []"
    using main_listener_other [OF c, of b m r] lc by simp
  finally have l: "filter (\<lambda>l. l_sendResponse l = ch) (listeners (fst (onMessage b m c r))) = []"
    using onMessage_parts [of b m c r] by simp
  have t: "filter (\<lambda>t. t_sendResponse t = ch) (timers (fst (onMessage b m c r))) =
             [\<lparr>t_due = dl, t_listener = i, t_sendResponse = ch\<rparr>]"
    using onMessage_parts [of b m c r] main_listener_other [OF c, of b m r] tc by simp
  have k: "clock (fst (onMessage b m c r)) = clock b"
    using onMessage_parts [of b m c r] main_listener_other [OF c, of b m r] by simp
  have "filter (\<lambda>l. l_sendResponse l = ch) ?hit = []"
    by (rule filter_none_keep [OF lc])
  then have n: "responses ch (snd (onMessage b m c r)) = []"
    using c by (simp add: onMessage_def Let_def responses_map_SendResponse responses_main_other)
  show ?thesis
    unfolding answered_def using l t k clk n by auto
qed

lemma answered_elapse_before:
  assumes a: "answered b ch dl" and d: "clock b + d < dl"
  shows "answered (fst (elapse b d)) ch dl
         \<and> clock (fst (elapse b d)) = clock b + d
         \<and> responses ch (snd (elapse b d)) = []"
proof -
  let ?due = "\<lambda>t. t_due t \<le> clock b + d"
  let ?keep = "\<lambda>l. l_id l \<notin> t_listener ` set (filter ?due (timers b))"
  from a have lc: "filter (\<lambda>l. l_sendResponse l = ch) (listeners b) = []"
    by (simp add: answered_def)
  from a obtain i where tc: "filter (\<lambda>t. t_sendResponse t = ch) (timers b) =
               [\<lparr>t_due = dl, t_listener = i, t_sendResponse = ch\<rparr>]"
    by (auto simp: answered_def)
  have l: "filter (\<lambda>l. l_sendResponse l = ch) (filter ?keep (listeners b)) = []"
    by (rule filter_none_keep [OF lc])
  have t: "filter (\<lambda>t. t_sendResponse t = ch) (filter (\<lambda>t. \<not> ?due t) (timers b)) =
             [\<lparr>t_due = dl, t_listener = i, t_sendResponse = ch\<rparr>]"
    by (rule filter_single_keep [OF tc]) (use d in simp)
  have f: "filter (\<lambda>t. t_sendResponse t = ch) (filter ?due (timers b)) = []"
    by (rule filter_single_drop [OF tc]) (use d in simp)
  show ?thesis
    unfolding answered_def using l t f d
    by (auto simp: elapse_def Let_def responses_map_SendResponse)
qed

lemma answered_elapse_due:
  assumes a: "answered b ch dl" and d: "dl \<le> clock b + d"
  shows "responses ch (snd (elapse b d)) = [timeout_error] \<and> unused ch (fst (elapse b d))"
proof -
  let ?due = "\<lambda>t. t_due t \<le> clock b + d"
  let ?keep = "\<lambda>l. l_id l \<notin> t_listener ` set (filter ?due (timers b))"
  from a have lc: "filter (\<lambda>l. l_sendResponse l = ch) (listeners b) = []"
    by (simp add: answered_def)
  from a obtain i where tc: "filter (\<lambda>t. t_sendResponse t = ch) (timers b) =
               [\<lparr>t_due = dl, t_listener = i, t_sendResponse = ch\<rparr>]"
    by (auto simp: answered_def)
  have l: "filter (\<lambda>l. l_sendResponse l = ch) (filter ?keep (listeners b)) = []"
    by (rule filter_none_keep [OF lc])
  have t: "filter (\<lambda>t. t_sendResponse t = ch) (filter (\<lambda>t. \<not> ?due t) (timers b)) = []"
    by (rule filter_single_drop [OF tc]) (use d in simp)
  have f: "filter (\<lambda>t. t_sendResponse t = ch) (filter ?due (timers b)) =
             [\<lparr>t_due = dl, t_listener = i, t_sendResponse = ch\<rparr>]"
    by (rule filter_single_keep [OF tc]) (use d in simp)
  show ?thesis
    unfolding unused_iff using l t f
    by (simp add: elapse_def Let_def responses_map_SendResponse)
qed

lemma armed_elapse_due_state:
  assumes a: "armed b i rid ch dl" and d: "dl \<le> clock b + d"
  shows "unused ch (fst (elapse b d))"
proof -
  let ?ours = "\<lparr>l_id = i, l_requestId = rid, l_sendResponse = ch\<rparr>"
  let ?ourt = "\<lparr>t_due = dl, t_listener = i, t_sendResponse = ch\<rparr>"
  let ?due = "\<lambda>t. t_due t \<le> clock b + d"
  let ?keep = "\<lambda>l. l_id l \<notin> t_listener ` set (filter ?due (timers b))"
  from a have lc: "filter (\<lambda>l. l_sendResponse l = ch) (listeners b) = [?ours]"
    and tc: "filter (\<lambda>t. t_sendResponse t = ch) (timers b) = [?ourt]"
    by (simp_all add: armed_def)
  from filter_single_in [OF tc] d have "?ourt \<in> set (filter ?due (timers b))" by simp
  then have gone: "\<not> ?keep ?ours" by force
  have l: "filter (\<lambda>l. l_sendResponse l = ch) (filter ?keep (listeners b)) = []"
    by (rule filter_single_drop [where R = ?keep, OF lc gone])
  have t: "filter (\<lambda>t. t_sendResponse t = ch) (filter (\<lambda>t. \<not> ?due t) (timers b)) = []"
    by (rule filter_single_drop [OF tc]) (use d in simp)
  show ?thesis
    unfolding unused_iff using l t by (simp add: elapse_def Let_def)
qed

lemma answered_calls:
  "answered b ch dl \<Longrightarrow> \<forall>e \<in> set es. \<not> uses_channel ch e \<Longrightarrow>
   responses ch (snd (bg_run b es)) = calls rid (dl - clock b) False es"
proof (induction es arbitrary: b)
  case Nil
  then show ?case by simp
next
  case (Cons e es)
  show ?case
  proof (cases e)
    case (Message m c r)
    with Cons.prems have c: "c \<noteq> ch" by simp
    from answered_message [OF Cons.prems(1) c, of m r]
    have a: "answered (fst (onMessage b m c r)) ch dl"
      and k: "clock (fst (onMessage b m c r)) = clock b"
      and n: "responses ch (snd (onMessage b m c r)) = []" by simp_all
    from Cons.IH [OF a] Cons.prems(2)
    show ?thesis by (simp add: Message case_prod_beta n k)
  next
    case (Elapse d)
    from Cons.prems(1) have clk: "clock b < dl" by (simp add: answered_def)
    show ?thesis
    proof (cases "dl \<le> clock b + d")
      case True
      then have le: "dl - clock b \<le> d" by simp
      from answered_elapse_due [OF Cons.prems(1) True]
      have r: "responses ch (snd (elapse b d)) = [timeout_error]"
        and u: "unused ch (fst (elapse b d))" by simp_all
      from unused_run [OF u] Cons.prems(2)
      have "responses ch (snd (bg_run (fst (elapse b d)) es)) = []" by simp
      then show ?thesis by (simp add: Elapse case_prod_beta r le)
    next
      case False
      then have d: "clock b + d < dl" by simp
      from d have nd: "\<not> dl - clock b \<le> d" by simp
      from answered_elapse_before [OF Cons.prems(1) d]
      have a: "answered (fst (elapse b d)) ch dl"
        and k: "clock (fst (elapse b d)) = clock b + d"
        and n: "responses ch (snd (elapse b d)) = []" by simp_all
      from Cons.IH [OF a] Cons.prems(2)
      show ?thesis by (simp add: Elapse case_prod_beta n k nd)
    qed
  qed
qed

lemma armed_calls:
  "armed b i rid ch dl \<Longrightarrow> \<forall>e \<in> set es. \<not> uses_channel ch e \<Longrightarrow>
   responses ch (snd (bg_run b es)) = calls rid (dl - clock b) True es"
proof (induction es arbitrary: b)
  case Nil
  then show ?case by simp
next
  case (Cons e es)
  show ?case
  proof (cases e)
    case (Message m c r)
    with Cons.prems have c: "c \<noteq> ch" by simp
    show ?thesis
    proof (cases "matches rid m")
      case True
      from armed_message_match [OF Cons.prems(1) c True, of r]
      have r: "responses ch (snd (onMessage b m c r)) = [forwarded m]" .
      from armed_message_match_state [OF Cons.prems(1) c True, of r]
      have a: "answered (fst (onMessage b m c r)) ch dl"
        and k: "clock (fst (onMessage b m c r)) = clock b" by simp_all
      from answered_calls [OF a, of es rid] Cons.prems(2)
      show ?thesis by (simp add: Message True case_prod_beta r k)
    next
      case False
      from armed_message_other [OF Cons.prems(1) c False, of r]
      have a: "armed (fst (onMessage b m c r)) i rid ch dl"
        and k: "clock (fst (onMessage b m c r)) = clock b"
        and n: "responses ch (snd (onMessage b m c r)) = []" by simp_all
      from Cons.IH [OF a] Cons.prems(2)
      show ?thesis by (simp add: Message False case_prod_beta n k)
    qed
  next
    case (Elapse d)
    from Cons.prems(1) have clk: "clock b < dl" by (simp add: armed_def)
    show ?thesis
    proof (cases "dl \<le> clock b + d")
      case True
      then have le: "dl - clock b \<le> d" by simp
      from armed_elapse_due [OF Cons.prems(1) True]
      have r: "responses ch (snd (elapse b d)) = [timeout_error]" .
      from armed_elapse_due_state [OF Cons.prems(1) True]
      have u: "unused ch (fst (elapse b d))" .
      from unused_run [OF u] Cons.prems(2)
      have "responses ch (snd (bg_run (fst (elapse b d)) es)) = []" by simp
      then show ?thesis by (simp add: Elapse case_prod_beta r le)
    next
      case False
      then have d: "clock b + d < dl" by simp
      from d have nd: "\<not> dl - clock b \<le> d" by simp
      from armed_elapse_before [OF Cons.prems(1) d]
      have a: "armed (fst (elapse b d)) i rid ch dl"
        and k: "clock (fst (elapse b d)) = clock b + d"
        and n: "responses ch (snd (elapse b d)) = []" by simp_all
      from Cons.IH [OF a] Cons.prems(2)
      show ?thesis by (simp add: Elapse case_prod_beta n k nd)
    qed
  qed
qed

lemma forwarded_not_timeout: "forwarded m \<noteq> timeout_error"
  by (simp add: forwarded_def timeout_error_def)

lemma calls_quiet: "elapsed es < left \<Longrightarrow> calls rid left False es = []"
  by (induction es arbitrary: left rule: elapsed.induct) auto

lemma calls_timeout:
  "expected rid left es = Some timeout_error \<Longrightarrow> calls rid left True es = [timeout_error]"
  by (induction rid left es rule: expected.induct)
     (auto simp: forwarded_not_timeout split: if_splits)

lemma calls_before_deadline:
  "elapsed es < left \<Longrightarrow> expected rid left es = Some v \<Longrightarrow> calls rid left True es = [v]"
  by (induction rid left es rule: expected.induct)
     (auto simp: calls_quiet split: if_splits)

text \<open>
  Claim C1, amended. A message with a supported method, other than a \<^verbatim>\<open>signIn\<close>
  without an integer nonce, is broadcast to the panel under the generated
  \<^verbatim>\<open>requestId\<close>. Whatever arrives afterwards for other callers, the first answer its
  caller is sent is the first panel response carrying that \<^verbatim>\<open>requestId\<close> if one
  arrives before 12000 ms have passed, and otherwise the timeout error, sent when
  12000 ms have passed; once 12000 ms have passed an answer has been sent (never zero).
  When no panel response arrives in time the caller is sent the timeout error and nothing
  else, exactly one answer; when one arrives in time it is the only answer for as long as
  the 12000 ms have not passed.
\<close>

theorem first_answer_panel_or_timeout:
  assumes "well_formed b" and "unused ch b" and "valid_request m"
    and "\<forall>e \<in> set es. \<not> uses_channel ch e"
  shows "broadcasts (snd (bg_step b (Message m ch rid))) =
           [panel_request (getp m ''method'') (getp m ''payload'') (JStr rid)]
         \<and> first_response ch (snd (bg_run b (Message m ch rid # es))) =
             expected rid timeout_ms es
         \<and> (timeout_ms \<le> elapsed es \<longrightarrow>
              first_response ch (snd (bg_run b (Message m ch rid # es))) \<noteq> None)
         \<and> (expected rid timeout_ms es = Some timeout_error \<longrightarrow>
              responses ch (snd (bg_run b (Message m ch rid # es))) = [timeout_error])
         \<and> (elapsed es < timeout_ms \<and> expected rid timeout_ms es = Some v \<longrightarrow>
              responses ch (snd (bg_run b (Message m ch rid # es))) = [v])"
proof -
  let ?b1 = "fst (bg_step b (Message m ch rid))"
  from armed_after_request [OF assms(1,2,3), of rid]
  have a: "armed ?b1 (next_id b) rid ch (clock b + timeout_ms)"
    and k: "clock ?b1 = clock b"
    and n: "responses ch (snd (bg_step b (Message m ch rid))) = []"
    and bc: "broadcasts (snd (bg_step b (Message m ch rid))) =
           [panel_request (getp m ''method'') (getp m ''payload'') (JStr rid)]"
    by simp_all
  from armed_first_response [OF a assms(4)] k
  have "first_response ch (snd (bg_run ?b1 es)) = expected rid timeout_ms es"
    by simp
  then have f: "first_response ch (snd (bg_run b (Message m ch rid # es))) =
             expected rid timeout_ms es"
    using n by (simp add: case_prod_beta first_response_append)
  from armed_calls [OF a assms(4)] k
  have "responses ch (snd (bg_run ?b1 es)) = calls rid timeout_ms True es"
    by simp
  then have r: "responses ch (snd (bg_run b (Message m ch rid # es))) =
             calls rid timeout_ms True es"
    using n by (simp add: case_prod_beta)
  have z: "timeout_ms \<le> elapsed es \<longrightarrow> expected rid timeout_ms es \<noteq> None"
    using expected_in_time [of timeout_ms es rid] by (simp add: timeout_ms_def)
  have t: "expected rid timeout_ms es = Some timeout_error \<longrightarrow>
             calls rid timeout_ms True es = [timeout_error]"
    by (simp add: calls_timeout)
  have o: "elapsed es < timeout_ms \<and> expected rid timeout_ms es = Some v \<longrightarrow>
             calls rid timeout_ms True es = [v]"
    by (simp add: calls_before_deadline)
  from f bc z t o show ?thesis
    by (simp only: r)
qed

lemmas bg_eval =
  onMessage_def main_listener_def elapse_def supported_def matches_def forwarded_def
  panel_request_def panel_response_def page_message_def nonce_error_def timeout_error_def
  timeout_ms_def init_bg_def first_response_def valid_request_def well_formed_def unused_def
  Let_def

text \<open>
  The theorem of C1 at work on the initial dispatcher: a \<^verbatim>\<open>getPublicKey\<close> request
  answered by the panel after 5000 ms, the one answer while the 12000 ms have not passed;
  and the same request with no answer from the panel, which gets the timeout error and
  nothing else.
\<close>

theorem first_answer_panel_or_timeout_witness:
  "well_formed init_bg \<and> unused 0 init_bg
   \<and> valid_request (page_message (JStr ''getPublicKey'') JUndefined)
   \<and> responses 0 (snd (bg_run init_bg
        [Message (page_message (JStr ''getPublicKey'') JUndefined) 0 ''k3j2'',
         Elapse 5000,
         Message (panel_response (JStr ''k3j2'') ''result'' (JObj [(''publicKey'', JStr ''pk'')])) 1 ''x'',
         Elapse 1000]))
     = [JObj [(''result'', JObj [(''publicKey'', JStr ''pk'')]), (''error'', JUndefined)]]
   \<and> responses 0 (snd (bg_run init_bg
        [Message (page_message (JStr ''getPublicKey'') JUndefined) 0 ''k3j2'',
         Elapse 5000, Message (page_message (JStr ''alive'') JUndefined) 1 ''x'', Elapse 7000,
         Elapse 20000]))
     = [timeout_error]"
  using first_answer_panel_or_timeout
    [of init_bg 0 "page_message (JStr ''getPublicKey'') JUndefined"
        "[Elapse 5000,
          Message (panel_response (JStr ''k3j2'') ''result'' (JObj [(''publicKey'', JStr ''pk'')])) 1 ''x'',
          Elapse 1000]" "''k3j2''"
        "JObj [(''result'', JObj [(''publicKey'', JStr ''pk'')]), (''error'', JUndefined)]"]
    first_answer_panel_or_timeout
    [of init_bg 0 "page_message (JStr ''getPublicKey'') JUndefined"
        "[Elapse 5000, Message (page_message (JStr ''alive'') JUndefined) 1 ''x'', Elapse 7000,
          Elapse 20000]" "''k3j2''" JUndefined]
  by (simp add: bg_eval cong: prod.case_cong_weak)

text \<open>
  Claim C1 as stated covers every supported method. A \<^verbatim>\<open>signIn\<close> with the nonce 1.5
  is a counterexample: no panel response arrives, 12000 ms pass, and the caller's answer is
  the nonce error, which is neither a panel response nor the timeout error the claim
  promises.
\<close>

theorem invalid_signIn_gets_neither:
  "first_response 0 (snd (bg_run init_bg
      [Message (page_message (JStr ''signIn'') (JObj [(''nonce'', JNonInt ''1.5'')])) 0 ''k3j2'',
       Elapse 12000]))
     = Some nonce_error
   \<and> expected ''k3j2'' timeout_ms [Elapse 12000] = Some timeout_error
   \<and> nonce_error \<noteq> timeout_error"
  by (simp add: bg_eval cong: prod.case_cong_weak)

text \<open>
  The timeout is not cancelled when the panel answers: it still fires and calls the same
  \<^verbatim>\<open>sendResponse\<close> a second time.
\<close>

lemma timeout_fires_after_answer:
  "responses 0 (snd (bg_run init_bg
        [Message (page_message (JStr ''alive'') JUndefined) 0 ''k3j2'',
         Message (panel_response (JStr ''k3j2'') ''result'' (JObj [(''status'', JStr ''alive'')])) 1 ''x'',
         Elapse 12000]))
     = [JObj [(''result'', JObj [(''status'', JStr ''alive'')]), (''error'', JUndefined)],
        timeout_error]"
  by (simp add: bg_eval cong: prod.case_cong_weak)

text \<open>
  The theorem of C3 at work: a \<^verbatim>\<open>signIn\<close> without payload, followed by the request of
  another caller and by 12000 ms.
\<close>

theorem invalid_signIn_refused_witness:
  "unused 0 init_bg
   \<and> responses 0 (snd (bg_run init_bg
        [Message (page_message (JStr ''signIn'') JUndefined) 0 ''k3j2'',
         Message (page_message (JStr ''alive'') JUndefined) 1 ''q'',
         Elapse 12000])) = [nonce_error]
   \<and> broadcasts (snd (bg_step init_bg
        (Message (page_message (JStr ''signIn'') JUndefined) 0 ''k3j2''))) = []"
  using invalid_signIn_refused
    [of "page_message (JStr ''signIn'') JUndefined" 0 init_bg
        "[Message (page_message (JStr ''alive'') JUndefined) 1 ''q'', Elapse 12000]" "''k3j2''"]
  by (simp add: bg_eval cong: prod.case_cong_weak)

section \<open>Properties of the panel\<close>

lemmas panel_eval =
  handlePanelRequest_def requestAction_def handleApprove_def handleReject_def tick_def
  settled_def failed_def resume_def finish_def suspend_def share_result_def sign_result_def
  approve_outcome_def reject_outcome_def setModal_def external_pending_def
  panel_response_def wallet_response_def panel_request_def init_panel_def or_undefined_def
  is_panel_request_def demo_client_def pending_count_def in_process_pending_def prompts_def
  Let_def

text \<open>
  Claim C2, amended. Whenever a Wallet Client is present, the panel answers a panel
  request with the method \<^verbatim>\<open>alive\<close> at once with the panel response
  \<^verbatim>\<open>{type, requestId, result: {status: 'alive'}}\<close>; its state, and with it a pending
  request and its countdown, is left as it was, so no approval step is presented.
\<close>

theorem alive_answered_at_once:
  assumes "client s = Some c" and "is_panel_request request"
    and "getp request ''method'' = JStr ''alive''"
  shows "panel_step s (PanelRequest request) =
           (s, [SendMessage (panel_response (getp request ''requestId'') ''result''
                               (JObj [(''status'', JStr ''alive'')]))])"
  using assms by (simp add: handlePanelRequest_def is_panel_request_def)

text \<open>
  The theorem of C2 at work while another request is pending.
\<close>

theorem alive_answered_at_once_witness:
  "panel_step ((init_panel (Some demo_client))\<lparr>modal := Some (external_pending GetPublicKey (JStr ''r1''))\<rparr>)
       (PanelRequest (panel_request (JStr ''alive'') JUndefined (JStr ''r2'')))
     = ((init_panel (Some demo_client))\<lparr>modal := Some (external_pending GetPublicKey (JStr ''r1''))\<rparr>,
        [SendMessage (JObj [(''type'', JStr ''feeless-wallet-panel-response''),
                            (''requestId'', JStr ''r2''),
                            (''result'', JObj [(''status'', JStr ''alive'')])])])"
  using alive_answered_at_once
    [of "(init_panel (Some demo_client))\<lparr>modal := Some (external_pending GetPublicKey (JStr ''r1''))\<rparr>"
        demo_client "panel_request (JStr ''alive'') JUndefined (JStr ''r2'')"]
  by (simp add: init_panel_def panel_request_def panel_response_def is_panel_request_def)

text \<open>
  Claim C2 as stated covers every panel request with the method \<^verbatim>\<open>alive\<close>. Without
  a Wallet Client the listener returns before it looks at the method: the request is not
  answered.
\<close>

theorem alive_unanswered_without_client:
  "is_panel_request (panel_request (JStr ''alive'') JUndefined (JStr ''r2''))
   \<and> panel_step (init_panel None)
        (PanelRequest (panel_request (JStr ''alive'') JUndefined (JStr ''r2'')))
     = (init_panel None, [])"
  by (simp add: handlePanelRequest_def init_panel_def panel_request_def is_panel_request_def)

lemma no_client_silent:
  "client s = None \<Longrightarrow> handlePanelRequest s request = (s, [])"
  by (simp add: handlePanelRequest_def)

text \<open>
  Claim C5. The panel holds one optional pending request: after every event there are 0
  or 1 of them; \<^verbatim>\<open>requestAction\<close> puts its request into the slot whatever was there,
  and so does a prompting panel request when a client is present. Nothing is queued.
\<close>

theorem single_pending_slot:
  "pending_count (fst (panel_step s e)) \<le> 1
   \<and> modal (fst (panel_step s (RequestAction a p))) = Some (in_process_pending a p)
   \<and> (client s \<noteq> None \<and> is_panel_request request \<and> prompts request \<longrightarrow>
        (\<exists>k. modal (fst (panel_step s (PanelRequest request))) =
                Some (external_pending k (getp request ''requestId''))))"
  by (auto simp: pending_count_def requestAction_def setModal_def in_process_pending_def
        handlePanelRequest_def is_panel_request_def prompts_def Let_def
      split: option.splits)

text \<open>
  The theorem of C5 at work: a \<^verbatim>\<open>signIn\<close> arrives while a \<^verbatim>\<open>getPublicKey\<close> is
  pending.
\<close>

theorem single_pending_slot_witness:
  "pending_count (fst (panel_step
       ((init_panel (Some demo_client))\<lparr>modal := Some (external_pending GetPublicKey (JStr ''r1'')),
                                        interval := True\<rparr>)
       (PanelRequest (panel_request (JStr ''signIn'') (JObj [(''nonce'', JInt 42)]) (JStr ''r2''))))) = 1
   \<and> modal (fst (panel_step
       ((init_panel (Some demo_client))\<lparr>modal := Some (external_pending GetPublicKey (JStr ''r1'')),
                                        interval := True\<rparr>)
       (PanelRequest (panel_request (JStr ''signIn'') (JObj [(''nonce'', JInt 42)]) (JStr ''r2'')))))
     = Some (external_pending (SignIn (JInt 42)) (JStr ''r2''))"
  using single_pending_slot
    [of "(init_panel (Some demo_client))\<lparr>modal := Some (external_pending GetPublicKey (JStr ''r1'')),
                                          interval := True\<rparr>"
        "PanelRequest (panel_request (JStr ''signIn'') (JObj [(''nonce'', JInt 42)]) (JStr ''r2''))"
        "\<lparr>kind = GetPublicKey, action_id = JUndefined\<rparr>" 0
        "panel_request (JStr ''signIn'') (JObj [(''nonce'', JInt 42)]) (JStr ''r2'')"]
  by (simp add: panel_eval)

text \<open>
  Claim C8, amended. For a pending request that is external with a truthy (non-empty)
  \<^verbatim>\<open>requestId\<close>, or in-process with its \<^verbatim>\<open>reject\<close>, a click on Reject emits
  exactly one outcome, the error \<^verbatim>\<open>'User denied'\<close>: a panel response with the
  \<^verbatim>\<open>requestId\<close> for the external request, the rejection of the promise for the
  in-process one. No Wallet Client method is called and the slot is emptied. The tick at
  which the countdown runs out does the same.
\<close>

theorem reject_emits_user_denied:
  assumes "modal s = Some m"
    and "(external m = Some True \<and> truthy (requestId m)) \<or>
         (external m \<noteq> Some True \<and> reject m = Some p)"
  shows "snd (panel_step s ClickReject) =
           (if external m = Some True
            then [SendMessage (panel_response (requestId m) ''error'' (JStr ''User denied''))]
            else [Reject p (JStr ''User denied'')])
         \<and> client_calls (snd (panel_step s ClickReject)) = []
         \<and> modal (fst (panel_step s ClickReject)) = None
         \<and> (interval s \<and> countdown s \<le> 1 \<longrightarrow>
              snd (panel_step s Tick) = snd (panel_step s ClickReject)
              \<and> modal (fst (panel_step s Tick)) = None)"
  using assms
  by (auto simp: handleReject_def reject_outcome_def setModal_def tick_def Let_def)

text \<open>
  The theorem of C8 at work: a click on Reject for an external request, and the expiry
  of the countdown for an in-process one.
\<close>

theorem reject_emits_user_denied_witness:
  "snd (panel_step
       ((init_panel (Some demo_client))\<lparr>modal := Some (external_pending GetPublicKey (JStr ''r1'')),
                                        interval := True\<rparr>) ClickReject)
     = [SendMessage (JObj [(''type'', JStr ''feeless-wallet-panel-response''),
                           (''requestId'', JStr ''r1''), (''error'', JStr ''User denied'')])]
   \<and> snd (panel_step
       ((init_panel None)\<lparr>modal := Some (in_process_pending \<lparr>kind = GetPublicKey, action_id = JUndefined\<rparr> 7),
                          interval := True, countdown := 1\<rparr>) Tick)
     = [Reject 7 (JStr ''User denied'')]"
  using reject_emits_user_denied
    [of "(init_panel (Some demo_client))\<lparr>modal := Some (external_pending GetPublicKey (JStr ''r1'')),
                                          interval := True\<rparr>"
        "external_pending GetPublicKey (JStr ''r1'')" 0]
    reject_emits_user_denied
    [of "(init_panel None)\<lparr>modal := Some (in_process_pending \<lparr>kind = GetPublicKey, action_id = JUndefined\<rparr> 7),
                          interval := True, countdown := 1\<rparr>"
        "in_process_pending \<lparr>kind = GetPublicKey, action_id = JUndefined\<rparr> 7" 7]
  by (simp add: panel_eval)

text \<open>
  Claim C8 as stated covers every pending request. A panel request with the empty
  \<^verbatim>\<open>requestId\<close> becomes a pending request whose rejection emits nothing: the empty
  string is falsy, and the branch that sends the panel response is not taken.
\<close>

theorem reject_silent_without_requestId:
  "panel_step (init_panel (Some demo_client))
       (PanelRequest (panel_request (JStr ''getPublicKey'') JUndefined (JStr '''')))
     = ((init_panel (Some demo_client))\<lparr>modal := Some (external_pending GetPublicKey (JStr '''')),
                                        interval := True\<rparr>, [])
   \<and> panel_step ((init_panel (Some demo_client))\<lparr>modal := Some (external_pending GetPublicKey (JStr '''')),
                                        interval := True\<rparr>) ClickReject
     = (init_panel (Some demo_client), [])"
  by (simp add: panel_eval)

subsection \<open>The countdown\<close>

lemma panel_run_append:
  "panel_run s (xs @ ys) =
     (case panel_run s xs of (s', fx) \<Rightarrow>
        (case panel_run s' ys of (s'', fx') \<Rightarrow> (s'', fx @ fx')))"
  by (induction xs arbitrary: s) (auto split: prod.splits)

lemma ticks_count_down:
  "interval s \<Longrightarrow> int k < countdown s \<Longrightarrow>
   panel_run s (replicate k Tick) = (s\<lparr>countdown := countdown s - int k\<rparr>, [])"
proof (induction k arbitrary: s)
  case 0
  then show ?case by simp
next
  case (Suc k)
  from Suc.prems have t: "tick s = (s\<lparr>countdown := countdown s - 1\<rparr>, [])"
    by (simp add: tick_def)
  from Suc.prems have "interval (s\<lparr>countdown := countdown s - 1\<rparr>)"
    and "int k < countdown (s\<lparr>countdown := countdown s - 1\<rparr>)" by simp_all
  from Suc.IH [OF this] show ?case
    by (simp add: t algebra_simps)
qed

lemma ticks_expire:
  assumes "interval s" and "modal s = Some p" and "countdown s = int (Suc k)"
  shows "panel_run s (replicate (Suc k) Tick) =
           (s\<lparr>modal := None, countdown := 10, interval := False\<rparr>, reject_outcome p)"
proof -
  have "replicate (Suc k) Tick = replicate k Tick @ [Tick]"
    by (simp add: replicate_append_same)
  moreover have "panel_run s (replicate k Tick) = (s\<lparr>countdown := countdown s - int k\<rparr>, [])"
    using assms by (intro ticks_count_down) simp_all
  moreover have "tick (s\<lparr>countdown := countdown s - int k\<rparr>) =
      (s\<lparr>modal := None, countdown := 10, interval := False\<rparr>, reject_outcome p)"
    using assms by (simp add: tick_def handleReject_def setModal_def Let_def)
  ultimately show ?thesis
    by (simp add: panel_run_append del: replicate.simps)
qed

lemma ticks_idle:
  "\<not> interval s \<Longrightarrow> panel_run s (replicate n Tick) = (s, [])"
  by (induction n) (simp_all add: tick_def)

lemmas string_eval = number_to_string_def nat_to_string_def digit_char_def round_double_def
  render_def decimal_def Let_def

lemma manual_resolution_cancels_timer:
  assumes "modal s = Some p"
    and "e = ClickReject \<or> (e = ClickApprove \<and> answered_at_once (kind (action p)))"
  shows "modal (fst (panel_step s e)) = None \<and> \<not> interval (fst (panel_step s e))
         \<and> panel_run (fst (panel_step s e)) (replicate n Tick) = (fst (panel_step s e), [])"
proof -
  have "modal (fst (panel_step s e)) = None \<and> \<not> interval (fst (panel_step s e))"
    using assms
    by (auto simp: handleReject_def handleApprove_def finish_def setModal_def
          answered_at_once_def split: action_kind.splits)
  then show ?thesis by (simp add: ticks_idle)
qed

text \<open>
  Claim C6 fails on the code. A \<^verbatim>\<open>send\<close> request is presented and the user clicks
  Approve; \<^verbatim>\<open>handleApprove\<close> waits for \<^verbatim>\<open>placeTXV2\<close> with the modal still open,
  so the interval is not cleared. The countdown runs out, \<^verbatim>\<open>'User denied'\<close> is sent
  after the manual approval, and when the transaction settles the result is sent as well.
\<close>

theorem approve_does_not_cancel_timer:
  "panel_run (init_panel (Some demo_client))
     ([PanelRequest (panel_request (JStr ''send'')
         (JObj [(''amount'', JInt 500), (''to'', JStr ''addr123''), (''token'', JStr ''USD'')])
         (JStr ''r1'')),
       ClickApprove] @ replicate 10 Tick @ [Settled 0 (JStr ''sig'')])
   = (init_panel (Some demo_client)\<lparr>next_call := 1\<rparr>,
      [ClientCall (CallPlaceTXV2 (JStr ''addr123'') (JInt 500) (JStr ''USD'') JUndefined),
       SendMessage (JObj [(''type'', JStr ''feeless-wallet-panel-response''),
                          (''requestId'', JStr ''r1''), (''error'', JStr ''User denied'')]),
       ClientCall CallGetPublic,
       SendMessage (JObj [(''type'', JStr ''feeless-wallet-panel-response''),
                          (''requestId'', JStr ''r1''),
                          (''result'', JObj [(''status'', JStr ''success''),
                                             (''publicKey'', JStr ''pk''),
                                             (''signature'', JStr ''sig'')])])])"
  by (simp add: panel_eval numeral_eq_Suc cong: prod.case_cong_weak)

text \<open>
  A request that replaces a pending one does not start at 10: it goes on with the
  countdown of the request it replaced.
\<close>

lemma replaced_request_inherits_countdown:
  "panel_run (init_panel (Some demo_client))
     [PanelRequest (panel_request (JStr ''getPublicKey'') JUndefined (JStr ''r1'')),
      Tick, Tick, Tick,
      PanelRequest (panel_request (JStr ''getPublicKey'') JUndefined (JStr ''r2''))]
   = (init_panel (Some demo_client)
        \<lparr>modal := Some (external_pending GetPublicKey (JStr ''r2'')), countdown := 7,
         interval := True\<rparr>, [])"
  by (simp add: panel_eval cong: prod.case_cong_weak)

subsection \<open>Approval of a sign-in\<close>

text \<open>
  Claim C7, amended. When the user approves a pending \<^verbatim>\<open>signIn\<close> with the integer
  nonce \<open>n\<close> and a Wallet Client is present, the client is asked for its public key and
  for its signature of \<^verbatim>\<open>String(n)\<close>, and the result emitted (to the page for an
  external request with a truthy \<^verbatim>\<open>requestId\<close>, to the promise for an in-process one)
  holds that key and that signature. \<^verbatim>\<open>String(n)\<close> is the decimal numeral of \<open>n\<close>
  whenever \<open>\<bar>n\<bar> \<le> 2 ^ 53\<close>.
\<close>

theorem signIn_signs_rendered_nonce:
  assumes "modal s = Some m" and "kind (action m) = SignIn (JInt n)" and "client s = Some c"
    and "(external m = Some True \<and> truthy (requestId m)) \<or>
         (external m \<noteq> Some True \<and> resolve m = Some p)"
  shows "snd (panel_step s ClickApprove) =
           [ClientCall CallGetPublic,
            ClientCall (CallSignMessage (JStr (js_String (JInt n)))),
            (if external m = Some True
             then SendMessage (panel_response (requestId m) ''result''
                    (JObj [(''publicKey'', getPublic c),
                           (''signature'', signMessage c (JStr (js_String (JInt n))))]))
             else Resolve p
                    (JObj [(''publicKey'', getPublic c),
                           (''signature'', signMessage c (JStr (js_String (JInt n))))]))]
         \<and> (\<bar>n\<bar> \<le> 2 ^ 53 \<longrightarrow> js_String (JInt n) = decimal n)"
proof -
  have "\<bar>n\<bar> \<le> 2 ^ 53 \<longrightarrow> js_String (JInt n) = decimal n"
    by (auto simp: number_to_string_def nat_to_string_def decimal_def nat_le_iff)
  then show ?thesis
    using assms
    by (auto simp: handleApprove_def finish_def sign_result_def approve_outcome_def)
qed

text \<open>
  The theorem of C7 at work on the nonce 42: the text signed is \<^verbatim>\<open>"42"\<close>.
\<close>

theorem signIn_signs_rendered_nonce_witness:
  "snd (panel_step
       ((init_panel (Some demo_client))\<lparr>modal := Some (external_pending (SignIn (JInt 42)) (JStr ''r1'')),
                                        interval := True\<rparr>) ClickApprove)
     = [ClientCall CallGetPublic,
        ClientCall (CallSignMessage (JStr ''42'')),
        SendMessage (JObj [(''type'', JStr ''feeless-wallet-panel-response''),
                           (''requestId'', JStr ''r1''),
                           (''result'', JObj [(''publicKey'', JStr ''pk''),
                                              (''signature'', JObj [(''signed'', JStr ''42'')])])])]
   \<and> js_String (JInt 42) = ''42''"
  using signIn_signs_rendered_nonce
    [of "(init_panel (Some demo_client))\<lparr>modal := Some (external_pending (SignIn (JInt 42)) (JStr ''r1'')),
                                          interval := True\<rparr>"
        "external_pending (SignIn (JInt 42)) (JStr ''r1'')" 42 demo_client 0]
  by (simp add: panel_eval string_eval)

text \<open>
  Claim C7 as stated covers every integer nonce. The nonce \<open>10 ^ 21\<close> is an integer
  for \<^verbatim>\<open>Number.isInteger\<close>, and the text signed is \<^verbatim>\<open>"1e+21"\<close>, not its decimal
  numeral.
\<close>

theorem signIn_large_nonce_not_decimal:
  "snd (panel_step
       ((init_panel (Some demo_client))\<lparr>modal := Some (external_pending (SignIn (JInt (10 ^ 21))) (JStr ''r1'')),
                                        interval := True\<rparr>) ClickApprove)
     = [ClientCall CallGetPublic,
        ClientCall (CallSignMessage (JStr ''1e+21'')),
        SendMessage (JObj [(''type'', JStr ''feeless-wallet-panel-response''),
                           (''requestId'', JStr ''r1''),
                           (''result'', JObj [(''publicKey'', JStr ''pk''),
                                              (''signature'', JObj [(''signed'', JStr ''1e+21'')])])])]
   \<and> decimal (10 ^ 21) = ''1000000000000000000000''"
  by (simp add: panel_eval string_eval)

section \<open>Properties of the relay as a whole\<close>

lemma no_client_to_panel:
  "client p = None \<Longrightarrow> to_panel p ms = (p, [])"
  by (induction ms) (simp_all add: no_client_silent)

text \<open>
  Claim C4. Without a Wallet Client the panel answers no panel request and its state
  does not change (whatever the method, \<^verbatim>\<open>alive\<close> included). A request of a page
  that the dispatcher relays then leaves the panel as it was, the panel sends nothing, and
  the caller is sent the timeout error of the dispatcher, and only that, once 12000 ms have
  passed.
\<close>

theorem no_client_no_answer:
  assumes "client (side_panel s) = None"
    and "well_formed (dispatcher s)" and "unused (ports s) (dispatcher s)"
    and "valid_request (page_message method payload)"
  shows "panel_step (side_panel s) (PanelRequest request) = (side_panel s, [])
         \<and> side_panel (fst (sys_run s [FromPage method payload rid, Passes d])) = side_panel s
         \<and> snd (snd (sys_run s [FromPage method payload rid, Passes d])) = []
         \<and> responses (ports s) (fst (snd (sys_run s [FromPage method payload rid, Passes d])))
             = (if timeout_ms \<le> d then [timeout_error] else [])"
proof -
  let ?m = "page_message method payload"
  let ?r = "onMessage (dispatcher s) ?m (ports s) rid"
  from armed_after_request [OF assms(2,3,4), of rid]
  have a: "armed (fst ?r) (next_id (dispatcher s)) rid (ports s) (clock (dispatcher s) + timeout_ms)"
    and k: "clock (fst ?r) = clock (dispatcher s)"
    and n: "responses (ports s) (snd ?r) = []"
    by simp_all
  have e: "responses (ports s) (snd (elapse (fst ?r) d)) =
             (if timeout_ms \<le> d then [timeout_error] else [])"
  proof (cases "timeout_ms \<le> d")
    case True
    then have "clock (dispatcher s) + timeout_ms \<le> clock (fst ?r) + d" using k by simp
    from armed_elapse_due [OF a this] True show ?thesis by simp
  next
    case False
    then have "clock (fst ?r) + d < clock (dispatcher s) + timeout_ms" using k by simp
    from armed_elapse_before [OF a this] False show ?thesis by simp
  qed
  show ?thesis
    using assms(1) n e
    by (simp add: no_client_silent no_client_to_panel case_prod_beta)
qed

lemmas sys_eval = bg_eval panel_eval init_sys_def

text \<open>
  The theorem of C4 at work: a \<^verbatim>\<open>send\<close> request with nobody logged in.
\<close>

theorem no_client_no_answer_witness:
  "client (side_panel (init_sys None)) = None
   \<and> valid_request (page_message (JStr ''send'')
         (JObj [(''amount'', JInt 500), (''to'', JStr ''addr123''), (''token'', JStr ''USD'')]))
   \<and> side_panel (fst (sys_run (init_sys None)
        [FromPage (JStr ''send'')
           (JObj [(''amount'', JInt 500), (''to'', JStr ''addr123''), (''token'', JStr ''USD'')])
           ''k3j2'',
         Passes 12000])) = init_panel None
   \<and> responses 0 (fst (snd (sys_run (init_sys None)
        [FromPage (JStr ''send'')
           (JObj [(''amount'', JInt 500), (''to'', JStr ''addr123''), (''token'', JStr ''USD'')])
           ''k3j2'',
         Passes 12000]))) = [timeout_error]"
  using no_client_no_answer
    [of "init_sys None" "JStr ''send''"
        "JObj [(''amount'', JInt 500), (''to'', JStr ''addr123''), (''token'', JStr ''USD'')]"
        JUndefined "''k3j2''" 12000]
  by (simp add: init_sys_def init_bg_def init_panel_def well_formed_def unused_def
        valid_request_def supported_def page_message_def timeout_ms_def)

text \<open>
  Two requests end to end with a client present: a sign-in approved by the user, and the
  liveness probe.
\<close>

lemma signIn_scenario:
  "fst (snd (sys_run (init_sys (Some demo_client))
      [FromPage (JStr ''signIn'') (JObj [(''nonce'', JInt 42)]) ''k3j2'',
       InPanel Tick, InPanel Tick, InPanel ClickApprove]))
   = [Broadcast (panel_request (JStr ''signIn'') (JObj [(''nonce'', JInt 42)]) (JStr ''k3j2'')),
      SendResponse 0
        (JObj [(''result'', JObj [(''publicKey'', JStr ''pk''),
                                  (''signature'', JObj [(''signed'', JStr ''42'')])]),
               (''error'', JUndefined)])]"
  by (simp add: sys_eval string_eval cong: prod.case_cong_weak)

lemma alive_scenario:
  "fst (snd (sys_run (init_sys (Some demo_client))
      [FromPage (JStr ''alive'') JUndefined ''k3j2'']))
   = [Broadcast (panel_request (JStr ''alive'') JUndefined (JStr ''k3j2'')),
      SendResponse 0
        (JObj [(''result'', JObj [(''status'', JStr ''alive'')]), (''error'', JUndefined)])]"
  by (simp add: sys_eval cong: prod.case_cong_weak)

section \<open>Properties of the credential store\<close>

subsection \<open>The fuel of the parser\<close>

text \<open>
  Every call of the parser that succeeds leaves a text shorter than the one it was given.
  So the fuel that \<open>JSON_parse\<close> starts with is never used up: with any greater fuel the
  result is the same, and \<open>None\<close> means that the text is no JSON.
\<close>

lemma skip_ws_length: "length (skip_ws cs) \<le> length cs"
  by (induction cs) auto

lemma skip_ws_Cons_length: "skip_ws cs = c # r \<Longrightarrow> length r < length cs"
  using skip_ws_length [of cs] by simp

lemma parse_digits_length: "parse_digits cs = (ds, r) \<Longrightarrow> length r \<le> length cs"
proof (induction cs arbitrary: ds r)
  case Nil
  then show ?case by simp
next
  case (Cons c cs)
  show ?case
  proof (cases "48 \<le> c \<and> c \<le> 57")
    case True
    obtain ds' r' where p: "parse_digits cs = (ds', r')" by (cases "parse_digits cs")
    with Cons.prems True have "r = r'" by simp
    with Cons.IH [OF p] show ?thesis by simp
  next
    case False
    with Cons.prems show ?thesis by auto
  qed
qed

lemma strip_prefix_length: "strip_prefix p cs = Some r \<Longrightarrow> length r \<le> length cs"
proof (induction p cs rule: strip_prefix.induct)
  case (1 cs)
  then show ?case by simp
next
  case (2 p ps)
  then show ?case by simp
next
  case (3 p ps c cs)
  then show ?case by (cases "p = c") simp_all
qed


lemma parse_chars_length: "parse_chars cs acc = Some (s, r) \<Longrightarrow> length r < length cs"
proof (induction cs arbitrary: acc rule: length_induct)
  case (1 cs)
  note IH = 1(1) [rule_format]
  show ?case
  proof (cases cs)
    case Nil
    with 1(2) show ?thesis by simp
  next
    case (Cons c cs')
    show ?thesis
    proof (cases "c = 34")
      case True
      with 1(2) Cons show ?thesis by simp
    next
      case n34: False
      show ?thesis
      proof (cases "c = 92")
        case True
        show ?thesis
        proof (cases cs')
          case Nil
          with 1(2) Cons True show ?thesis by simp
        next
          case e: (Cons e r0)
          show ?thesis
          proof (cases "e = 117")
            case u: True
            from 1(2) Cons True e u obtain a b c' d r' v where
                r0: "r0 = a # b # c' # d # r'" and "parse_chars r' (v # acc) = Some (s, r)"
              by (auto split: list.splits option.splits)
            from IH [OF _ this(2)] r0 e Cons show ?thesis by simp
          next
            case nu: False
            from 1(2) Cons True e nu obtain v where "parse_chars r0 (v # acc) = Some (s, r)"
              by (auto split: option.splits)
            from IH [OF _ this] e Cons show ?thesis by simp
          qed
        qed
      next
        case False
        with 1(2) Cons n34 have "parse_chars cs' (c # acc) = Some (s, r)"
          by (auto split: if_splits)
        from IH [OF _ this] Cons show ?thesis by simp
      qed
    qed
  qed
qed

lemma parse_int_length: "parse_int cs = Some (i, r) \<Longrightarrow> length r < length cs"
proof (cases cs)
  case Nil
  then show "parse_int cs = Some (i, r) \<Longrightarrow> ?thesis" by (simp add: parse_int_def)
next
  case (Cons c r0)
  assume p: "parse_int cs = Some (i, r)"
  obtain ds r' where d: "parse_digits r0 = (ds, r')" by (cases "parse_digits r0")
  from p Cons d have "r = r0 \<or> r = r'"
    by (auto simp: parse_int_def split: if_splits)
  with parse_digits_length [OF d] Cons show ?thesis by auto
qed

lemma parse_frac_length: "parse_frac cs = Some (f, r) \<Longrightarrow> length r \<le> length cs"
proof (cases cs)
  case Nil
  then show "parse_frac cs = Some (f, r) \<Longrightarrow> ?thesis" by (simp add: parse_frac_def)
next
  case (Cons c r0)
  assume p: "parse_frac cs = Some (f, r)"
  obtain ds r' where d: "parse_digits r0 = (ds, r')" by (cases "parse_digits r0")
  from p Cons d have "r = cs \<or> r = r'"
    by (auto simp: parse_frac_def split: if_splits)
  with parse_digits_length [OF d] Cons show ?thesis by auto
qed

lemma parse_exp_length: "parse_exp cs = Some (e, r) \<Longrightarrow> length r \<le> length cs"
proof (cases cs)
  case Nil
  then show "parse_exp cs = Some (e, r) \<Longrightarrow> ?thesis" by (simp add: parse_exp_def)
next
  case (Cons c r0)
  assume p: "parse_exp cs = Some (e, r)"
  obtain sg r1 where s: "parse_sign r0 = (sg, r1)" by (cases "parse_sign r0")
  obtain ds r2 where d: "parse_digits r1 = (ds, r2)" by (cases "parse_digits r1")
  from s have l1: "length r1 \<le> length r0"
    by (auto simp: parse_sign_def split: list.splits if_splits)
  from p Cons s d have "r = cs \<or> r = r2"
    by (auto simp: parse_exp_def split: if_splits)
  with parse_digits_length [OF d] l1 Cons show ?thesis by auto
qed

lemma parse_number_length:
  assumes "parse_number cs = Some (lx, r)"
  shows "length r < length cs"
proof -
  obtain sg r0 where s: "(case cs of [] \<Rightarrow> ([], []) | c # r \<Rightarrow> if c = 45 then ([c], r) else ([], cs)) = (sg, r0)"
    by (cases "(case cs of [] \<Rightarrow> ([], []) | c # r \<Rightarrow> if c = 45 then ([c], r) else ([], cs))")
  then have l0: "length r0 \<le> length cs"
    by (auto split: list.splits if_splits)
  from assms s obtain i r1 where i: "parse_int r0 = Some (i, r1)"
    by (auto simp: parse_number_def split: option.splits)
  from assms s i obtain f r2 where f: "parse_frac r1 = Some (f, r2)"
    by (auto simp: parse_number_def split: option.splits)
  from assms s i f obtain e where e: "parse_exp r2 = Some (e, r)"
    by (auto simp: parse_number_def split: option.splits)
  from parse_int_length [OF i] parse_frac_length [OF f] parse_exp_length [OF e] l0
  show ?thesis by simp
qed

lemma parse_value_length:
  "(\<forall>cs v r. parse_value n cs = Some (v, r) \<longrightarrow> length r < length cs)
   \<and> (\<forall>cs acc v r. parse_elements n cs acc = Some (v, r) \<longrightarrow> length r < length cs)
   \<and> (\<forall>cs acc v r. parse_members n cs acc = Some (v, r) \<longrightarrow> length r < length cs)"
proof (induction n)
  case 0
  show ?case by simp
next
  case (Suc n)
  then have IHv: "\<And>cs v r. parse_value n cs = Some (v, r) \<Longrightarrow> length r < length cs"
    and IHe: "\<And>cs acc v r. parse_elements n cs acc = Some (v, r) \<Longrightarrow> length r < length cs"
    and IHm: "\<And>cs acc v r. parse_members n cs acc = Some (v, r) \<Longrightarrow> length r < length cs"
    by blast+
  have v: "length r < length cs" if p: "parse_value (Suc n) cs = Some (v, r)" for cs v r
  proof (cases "skip_ws cs")
    case Nil
    with p show ?thesis by simp
  next
    case (Cons c r0)
    note l0 = skip_ws_Cons_length [OF Cons]
    consider (obj) "c = 123" | (arr) "c = 91" | (str) "c = 34" | (t) "c = 116" | (f) "c = 102"
      | (n) "c = 110" | (num) "c \<noteq> 123" "c \<noteq> 91" "c \<noteq> 34" "c \<noteq> 116" "c \<noteq> 102" "c \<noteq> 110"
      by blast
    then show ?thesis
    proof cases
      case obj
      show ?thesis
      proof (cases "skip_ws r0")
        case Nil
        with p Cons obj show ?thesis by simp
      next
        case c1: (Cons c' r')
        note l1 = skip_ws_Cons_length [OF c1]
        show ?thesis
        proof (cases "c' = 125")
          case True
          with p Cons obj c1 have "r = r'" by simp
          with l0 l1 show ?thesis by simp
        next
          case False
          with p Cons obj c1 have "parse_members n (c' # r') [] = Some (v, r)" by simp
          from IHm [OF this] l0 l1 show ?thesis by simp
        qed
      qed
    next
      case arr
      show ?thesis
      proof (cases "skip_ws r0")
        case Nil
        with p Cons arr show ?thesis by simp
      next
        case c1: (Cons c' r')
        note l1 = skip_ws_Cons_length [OF c1]
        show ?thesis
        proof (cases "c' = 93")
          case True
          with p Cons arr c1 have "r = r'" by simp
          with l0 l1 show ?thesis by simp
        next
          case False
          with p Cons arr c1 have "parse_elements n (c' # r') [] = Some (v, r)" by simp
          from IHe [OF this] l0 l1 show ?thesis by simp
        qed
      qed
    next
      case str
      with p Cons obtain s where "parse_chars r0 [] = Some (s, r)"
        by (auto split: option.splits)
      from parse_chars_length [OF this] l0 show ?thesis by simp
    next
      case t
      with p Cons have "strip_prefix [114, 117, 101] r0 = Some r"
        by (auto split: option.splits)
      from strip_prefix_length [OF this] l0 show ?thesis by simp
    next
      case f
      with p Cons have "strip_prefix [97, 108, 115, 101] r0 = Some r"
        by (auto split: option.splits)
      from strip_prefix_length [OF this] l0 show ?thesis by simp
    next
      case n
      with p Cons have "strip_prefix [117, 108, 108] r0 = Some r"
        by (auto split: option.splits)
      from strip_prefix_length [OF this] l0 show ?thesis by simp
    next
      case num
      with p Cons obtain lx where "parse_number (c # r0) = Some (lx, r)"
        by (auto split: option.splits)
      from parse_number_length [OF this] skip_ws_length [of cs] Cons show ?thesis by simp
    qed
  qed
  have e: "length r < length cs" if p: "parse_elements (Suc n) cs acc = Some (v, r)" for cs acc v r
  proof -
    from p obtain x r1 where x: "parse_value n cs = Some (x, r1)"
      by (auto split: option.splits)
    note l1 = IHv [OF x]
    from p x obtain c r2 where s: "skip_ws r1 = c # r2"
      by (auto split: list.splits)
    note l2 = skip_ws_Cons_length [OF s]
    from p x s have "parse_elements n r2 (acc @ [x]) = Some (v, r) \<or> r = r2"
      by (auto split: if_splits)
    then show ?thesis
    proof
      assume "parse_elements n r2 (acc @ [x]) = Some (v, r)"
      from IHe [OF this] l1 l2 show ?thesis by simp
    next
      assume "r = r2"
      with l1 l2 show ?thesis by simp
    qed
  qed
  have m: "length r < length cs" if p: "parse_members (Suc n) cs acc = Some (v, r)" for cs acc v r
  proof -
    from p obtain r0 where s0: "skip_ws cs = 34 # r0"
      by (auto split: list.splits if_splits)
    note l0 = skip_ws_Cons_length [OF s0]
    from p s0 obtain k r1 where k: "parse_chars r0 [] = Some (k, r1)"
      by (auto split: option.splits)
    note l1 = parse_chars_length [OF k]
    from p s0 k obtain r2 where s1: "skip_ws r1 = 58 # r2"
      by (auto split: list.splits if_splits)
    note l2 = skip_ws_Cons_length [OF s1]
    from p s0 k s1 obtain x r3 where x: "parse_value n r2 = Some (x, r3)"
      by (auto split: option.splits)
    note l3 = IHv [OF x]
    from p s0 k s1 x obtain c3 r4 where s3: "skip_ws r3 = c3 # r4"
      by (auto split: list.splits)
    note l4 = skip_ws_Cons_length [OF s3]
    from p s0 k s1 x s3
    have "parse_members n r4 (define_property k x acc) = Some (v, r) \<or> r = r4"
      by (auto split: if_splits)
    then show ?thesis
    proof
      assume "parse_members n r4 (define_property k x acc) = Some (v, r)"
      from IHm [OF this] l0 l1 l2 l3 l4 show ?thesis by simp
    next
      assume "r = r4"
      with l0 l1 l2 l3 l4 show ?thesis by simp
    qed
  qed
  from v e m show ?case by blast
qed

lemmas parse_value_shorter = parse_value_length [THEN conjunct1, rule_format]

text \<open>
  With enough fuel for the text, one more call gives the same result whatever the fuel
  is, provided the calls inside it do.
\<close>

lemma fuel_step_value:
  assumes IHe: "\<And>cs acc. 2 * length cs + 3 \<le> n \<Longrightarrow> 2 * length cs + 3 \<le> m \<Longrightarrow>
        parse_elements n cs acc = parse_elements m cs acc"
    and IHm: "\<And>cs acc. 2 * length cs + 3 \<le> n \<Longrightarrow> 2 * length cs + 3 \<le> m \<Longrightarrow>
        parse_members n cs acc = parse_members m cs acc"
    and n: "2 * length cs + 2 \<le> Suc n" and m: "2 * length cs + 2 \<le> Suc m"
  shows "parse_value (Suc n) cs = parse_value (Suc m) cs"
proof (cases "skip_ws cs")
  case Nil
  then show ?thesis by simp
next
  case (Cons c r0)
  note l0 = skip_ws_Cons_length [OF Cons]
  show ?thesis
  proof (cases "skip_ws r0")
    case Nil
    with Cons show ?thesis by simp
  next
    case c1: (Cons c' r')
    note l1 = skip_ws_Cons_length [OF c1]
    from l0 l1 n m have b: "2 * length (c' # r') + 3 \<le> n" "2 * length (c' # r') + 3 \<le> m"
      by simp_all
    have pe: "parse_elements n (x # r') [] = parse_elements m (x # r') []" for x
      using b by (intro IHe) simp_all
    have pm: "parse_members n (x # r') [] = parse_members m (x # r') []" for x
      using b by (intro IHm) simp_all
    show ?thesis by (simp add: Cons c1 pe pm)
  qed
qed


lemma fuel_step_elements:
  assumes IHv: "\<And>cs. 2 * length cs + 2 \<le> n \<Longrightarrow> 2 * length cs + 2 \<le> m \<Longrightarrow>
        parse_value n cs = parse_value m cs"
    and IHe: "\<And>cs acc. 2 * length cs + 3 \<le> n \<Longrightarrow> 2 * length cs + 3 \<le> m \<Longrightarrow>
        parse_elements n cs acc = parse_elements m cs acc"
    and n: "2 * length cs + 3 \<le> Suc n" and m: "2 * length cs + 3 \<le> Suc m"
  shows "parse_elements (Suc n) cs acc = parse_elements (Suc m) cs acc"
proof -
  from n m have "2 * length cs + 2 \<le> n" "2 * length cs + 2 \<le> m" by simp_all
  then have pv: "parse_value n cs = parse_value m cs" by (rule IHv)
  show ?thesis
  proof (cases "parse_value m cs")
    case None
    with pv show ?thesis by simp
  next
    case (Some a)
    obtain x r1 where a: "a = (x, r1)" by (cases a)
    from Some a have l1: "length r1 < length cs" by (simp add: parse_value_shorter)
    show ?thesis
    proof (cases "skip_ws r1")
      case Nil
      then show ?thesis by (simp add: pv Some a)
    next
      case (Cons c r2)
      note l2 = skip_ws_Cons_length [OF Cons]
      from l1 l2 n m have b: "2 * length r2 + 3 \<le> n" "2 * length r2 + 3 \<le> m"
        by simp_all
      have pe: "parse_elements n r2 acc' = parse_elements m r2 acc'" for acc'
        using b by (rule IHe)
      show ?thesis by (simp add: pv Some a Cons pe)
    qed
  qed
qed

lemma fuel_step_members:
  assumes IHv: "\<And>cs. 2 * length cs + 2 \<le> n \<Longrightarrow> 2 * length cs + 2 \<le> m \<Longrightarrow>
        parse_value n cs = parse_value m cs"
    and IHm: "\<And>cs acc. 2 * length cs + 3 \<le> n \<Longrightarrow> 2 * length cs + 3 \<le> m \<Longrightarrow>
        parse_members n cs acc = parse_members m cs acc"
    and n: "2 * length cs + 3 \<le> Suc n" and m: "2 * length cs + 3 \<le> Suc m"
  shows "parse_members (Suc n) cs acc = parse_members (Suc m) cs acc"
proof (cases "skip_ws cs")
  case Nil
  then show ?thesis by simp
next
  case (Cons c r0)
  note l0 = skip_ws_Cons_length [OF Cons]
  show ?thesis
  proof (cases "parse_chars r0 []")
    case None
    then show ?thesis by (simp add: Cons)
  next
    case (Some a)
    obtain k r1 where a: "a = (k, r1)" by (cases a)
    from Some a have l1: "length r1 < length r0" by (simp add: parse_chars_length)
    show ?thesis
    proof (cases "skip_ws r1")
      case Nil
      then show ?thesis by (simp add: Cons Some a)
    next
      case c1: (Cons c1 r2)
      note l2 = skip_ws_Cons_length [OF c1]
      from l0 l1 l2 n m have "2 * length r2 + 2 \<le> n" "2 * length r2 + 2 \<le> m"
        by simp_all
      then have pv: "parse_value n r2 = parse_value m r2" by (rule IHv)
      show ?thesis
      proof (cases "parse_value m r2")
        case None
        then show ?thesis by (simp add: Cons Some a c1 pv)
      next
        case s2: (Some a')
        obtain x r3 where a': "a' = (x, r3)" by (cases a')
        from s2 a' have l3: "length r3 < length r2" by (simp add: parse_value_shorter)
        show ?thesis
        proof (cases "skip_ws r3")
          case Nil
          then show ?thesis by (simp add: Cons Some a c1 pv s2 a')
        next
          case c3: (Cons c3 r4)
          note l4 = skip_ws_Cons_length [OF c3]
          from l0 l1 l2 l3 l4 n m
          have b: "2 * length r4 + 3 \<le> n" "2 * length r4 + 3 \<le> m"
            by simp_all
          have pm: "parse_members n r4 acc' = parse_members m r4 acc'" for acc'
            using b by (rule IHm)
          show ?thesis by (simp add: Cons Some a c1 pv s2 a' c3 pm)
        qed
      qed
    qed
  qed
qed

lemma parse_value_fuel:
  "(\<forall>cs m. 2 * length cs + 2 \<le> n \<and> 2 * length cs + 2 \<le> m \<longrightarrow>
       parse_value n cs = parse_value m cs)
   \<and> (\<forall>cs acc m. 2 * length cs + 3 \<le> n \<and> 2 * length cs + 3 \<le> m \<longrightarrow>
       parse_elements n cs acc = parse_elements m cs acc)
   \<and> (\<forall>cs acc m. 2 * length cs + 3 \<le> n \<and> 2 * length cs + 3 \<le> m \<longrightarrow>
       parse_members n cs acc = parse_members m cs acc)"
proof (induction n)
  case 0
  have "\<not> 2 * length cs + k \<le> (0::nat)" if "0 < k" for cs :: jstring and k
    using that by simp
  then show ?case by (simp only: simp_thms zero_less_numeral)
next
  case (Suc n)
  have IHv: "parse_value n cs = parse_value m cs"
    if "2 * length cs + 2 \<le> n" "2 * length cs + 2 \<le> m" for cs m
    by (rule Suc.IH [THEN conjunct1, rule_format], rule conjI [OF that])
  have IHe: "parse_elements n cs acc = parse_elements m cs acc"
    if "2 * length cs + 3 \<le> n" "2 * length cs + 3 \<le> m" for cs acc m
    by (rule Suc.IH [THEN conjunct2, THEN conjunct1, rule_format], rule conjI [OF that])
  have IHm: "parse_members n cs acc = parse_members m cs acc"
    if "2 * length cs + 3 \<le> n" "2 * length cs + 3 \<le> m" for cs acc m
    by (rule Suc.IH [THEN conjunct2, THEN conjunct2, rule_format], rule conjI [OF that])
  show ?case
  proof (intro conjI allI impI)
    fix cs :: jstring and m
    assume a: "2 * length cs + 2 \<le> Suc n \<and> 2 * length cs + 2 \<le> m"
    then obtain m' where m': "m = Suc m'" by (cases m) simp_all
    from a have n: "2 * length cs + 2 \<le> Suc n" and m2: "2 * length cs + 2 \<le> Suc m'"
      by (simp_all only: m')
    show "parse_value (Suc n) cs = parse_value m cs"
      unfolding m'
    proof (rule fuel_step_value)
      show "2 * length cs + 2 \<le> Suc n" by (rule n)
      show "2 * length cs + 2 \<le> Suc m'" by (rule m2)
      show "parse_elements n xs acc = parse_elements m' xs acc"
        if "2 * length xs + 3 \<le> n" "2 * length xs + 3 \<le> m'" for xs acc
        using that by (rule IHe)
      show "parse_members n xs acc = parse_members m' xs acc"
        if "2 * length xs + 3 \<le> n" "2 * length xs + 3 \<le> m'" for xs acc
        using that by (rule IHm)
    qed
  next
    fix cs :: jstring and acc m
    assume a: "2 * length cs + 3 \<le> Suc n \<and> 2 * length cs + 3 \<le> m"
    then obtain m' where m': "m = Suc m'" by (cases m) simp_all
    from a have n: "2 * length cs + 3 \<le> Suc n" and m2: "2 * length cs + 3 \<le> Suc m'"
      by (simp_all only: m')
    show "parse_elements (Suc n) cs acc = parse_elements m cs acc"
      unfolding m'
    proof (rule fuel_step_elements)
      show "2 * length cs + 3 \<le> Suc n" by (rule n)
      show "2 * length cs + 3 \<le> Suc m'" by (rule m2)
      show "parse_value n xs = parse_value m' xs"
        if "2 * length xs + 2 \<le> n" "2 * length xs + 2 \<le> m'" for xs
        using that by (rule IHv)
      show "parse_elements n xs acc = parse_elements m' xs acc"
        if "2 * length xs + 3 \<le> n" "2 * length xs + 3 \<le> m'" for xs acc
        using that by (rule IHe)
    qed
  next
    fix cs :: jstring and acc m
    assume a: "2 * length cs + 3 \<le> Suc n \<and> 2 * length cs + 3 \<le> m"
    then obtain m' where m': "m = Suc m'" by (cases m) simp_all
    from a have n: "2 * length cs + 3 \<le> Suc n" and m2: "2 * length cs + 3 \<le> Suc m'"
      by (simp_all only: m')
    show "parse_members (Suc n) cs acc = parse_members m cs acc"
      unfolding m'
    proof (rule fuel_step_members)
      show "2 * length cs + 3 \<le> Suc n" by (rule n)
      show "2 * length cs + 3 \<le> Suc m'" by (rule m2)
      show "parse_value n xs = parse_value m' xs"
        if "2 * length xs + 2 \<le> n" "2 * length xs + 2 \<le> m'" for xs
        using that by (rule IHv)
      show "parse_members n xs acc = parse_members m' xs acc"
        if "2 * length xs + 3 \<le> n" "2 * length xs + 3 \<le> m'" for xs acc
        using that by (rule IHm)
    qed
  qed
qed

text \<open>More fuel than \<open>JSON_parse\<close> starts with changes nothing.\<close>

lemma JSON_parse_fuel:
  assumes "2 * length text + 2 \<le> n"
  shows "parse_value n text = parse_value (2 * length text + 2) text"
  using assms by (intro parse_value_fuel [THEN conjunct1, rule_format]) simp

subsection \<open>Parsing what \<^verbatim>\<open>JSON.stringify\<close> wrote\<close>

text \<open>
  Reading a quoted string gives back the string: escape by escape, then for the whole
  string, for a property, and for the object of the three credentials.
\<close>

lemma hexval_hexdigit: "d < 16 \<Longrightarrow> hexval (hexdigit d) = Some d"
  by (simp add: hexval_def hexdigit_def)

lemma hex_recompose:
  fixes c :: nat
  assumes "c < 65536"
  shows "((c div 4096 mod 16 * 16 + c div 256 mod 16) * 16 + c div 16 mod 16) * 16 + c mod 16 = c"
proof -
  have d2: "c div 256 = c div 16 div 16" and d3: "c div 4096 = c div 16 div 16 div 16"
    by (simp_all add: div_mult2_eq [symmetric])
  have small: "c div 16 div 16 div 16 < 16"
    using assms by (simp add: div_mult2_eq [symmetric] less_mult_imp_div_less)
  have e0: "c div 16 * 16 + c mod 16 = c" by simp
  have e1: "c div 16 div 16 * 16 + c div 16 mod 16 = c div 16" by simp
  have e2: "c div 16 div 16 div 16 * 16 + c div 16 div 16 mod 16 = c div 16 div 16" by simp
  show ?thesis
    unfolding d2 d3 mod_less [OF small] e2 e1 e0 ..
qed

lemma hex_digits_parse:
  assumes "c < 65536"
  shows "\<exists>x y z w. hex_digits c = [x, y, z, w] \<and> hex4 x y z w = Some c"
proof -
  have "hex4 (hexdigit (c div 4096 mod 16)) (hexdigit (c div 256 mod 16))
          (hexdigit (c div 16 mod 16)) (hexdigit (c mod 16)) = Some c"
    unfolding hex4_def
    by (simp only: hexval_hexdigit mod_less_divisor zero_less_numeral hex_recompose [OF assms]
          prod.case option.case)
  then show ?thesis unfolding hex_digits_def by blast
qed

lemma parse_unicode_escape:
  assumes "c < 65536"
  shows "parse_chars (unicode_escape c @ rest) acc = parse_chars rest (c # acc)"
proof -
  from hex_digits_parse [OF assms] obtain x y z w
    where d: "hex_digits c = [x, y, z, w]" and h: "hex4 x y z w = Some c" by blast
  show ?thesis
    by (simp add: unicode_escape_def d h)
qed

lemma parse_simple_escape:
  "simple_escape e = Some v \<Longrightarrow> e \<noteq> 117 \<Longrightarrow>
   parse_chars (92 # e # rest) acc = parse_chars rest (v # acc)"
  by simp

lemma parse_literal:
  "32 \<le> c \<Longrightarrow> c \<noteq> 34 \<Longrightarrow> c \<noteq> 92 \<Longrightarrow>
   parse_chars (c # cs) acc = parse_chars cs (c # acc)"
  by simp

lemma parse_quote_unit:
  "parse_chars (quote_unit c @ rest) acc = parse_chars rest (c # acc)"
proof -
  consider (simple) "c = 8 \<or> c = 9 \<or> c = 10 \<or> c = 12 \<or> c = 13 \<or> c = 34 \<or> c = 92"
    | (escaped) "\<not> (c = 8 \<or> c = 9 \<or> c = 10 \<or> c = 12 \<or> c = 13 \<or> c = 34 \<or> c = 92)"
        "c < 32 \<or> is_high c \<or> is_low c"
    | (literal) "\<not> (c = 8 \<or> c = 9 \<or> c = 10 \<or> c = 12 \<or> c = 13 \<or> c = 34 \<or> c = 92)"
        "\<not> (c < 32 \<or> is_high c \<or> is_low c)"
    by blast
  then show ?thesis
  proof cases
    case simple
    then show ?thesis
      by (elim disjE) (simp_all add: quote_unit_def simple_escape_def)
  next
    case escaped
    then have "c < 65536" by (auto simp: is_high_def is_low_def)
    from parse_unicode_escape [OF this, of rest acc] escaped show ?thesis
      by (simp add: quote_unit_def)
  next
    case literal
    then have q: "quote_unit c = [c]" by (simp add: quote_unit_def)
    from literal have "32 \<le> c" "c \<noteq> 34" "c \<noteq> 92" by auto
    from parse_literal [OF this] show ?thesis by (simp add: q)
  qed
qed

lemma parse_quote_units:
  "parse_chars (quote_units s @ rest) acc = parse_chars rest (rev s @ acc)"
proof (induction s arbitrary: acc rule: quote_units.induct)
  case 1
  show ?case by simp
next
  case (2 c)
  show ?case by (simp add: parse_quote_unit)
next
  case (3 h l cs)
  show ?case
  proof (cases "is_high h \<and> is_low l")
    case True
    then have h: "32 \<le> h" "h \<noteq> 34" "h \<noteq> 92" and l: "32 \<le> l" "l \<noteq> 34" "l \<noteq> 92"
      by (auto simp: is_high_def is_low_def)
    have q: "quote_units (h # l # cs) = h # l # quote_units cs"
      using True by simp
    have "parse_chars (quote_units (h # l # cs) @ rest) acc =
            parse_chars (h # l # quote_units cs @ rest) acc"
      by (simp only: q append_Cons)
    also have "\<dots> = parse_chars (quote_units cs @ rest) (l # h # acc)"
      by (simp only: parse_literal [OF h] parse_literal [OF l])
    also have "\<dots> = parse_chars rest (rev cs @ l # h # acc)"
      using "3.IH"(1) [OF True] by simp
    finally show ?thesis by simp
  next
    case False
    have q: "quote_units (h # l # cs) = quote_unit h @ quote_units (l # cs)"
      using False by auto
    have "parse_chars (quote_units (h # l # cs) @ rest) acc =
            parse_chars (quote_unit h @ (quote_units (l # cs) @ rest)) acc"
      by (simp only: q append_assoc)
    also have "\<dots> = parse_chars (quote_units (l # cs) @ rest) (h # acc)"
      by (rule parse_quote_unit)
    also have "\<dots> = parse_chars rest (rev (l # cs) @ h # acc)"
      using "3.IH"(2) [OF False] by simp
    finally show ?thesis by simp
  qed
qed

lemma parse_QuoteJSONString:
  "parse_chars (quote_units s @ 34 # rest) [] = Some (s, rest)"
  by (simp add: parse_quote_units)



lemma skip_ws_quote [simp]: "skip_ws (34 # cs) = 34 # cs"
  by simp

lemma define_property_fresh:
  "k \<notin> fst ` set acc \<Longrightarrow> define_property k v acc = acc @ [(k, v)]"
  by (induction acc) auto

lemma parse_value_string:
  "parse_value (Suc n) (QuoteJSONString s @ rest) = Some (JsString s, rest)"
  by (simp add: QuoteJSONString_def parse_QuoteJSONString)

lemma parse_member_more:
  "parse_members (Suc (Suc n)) (QuoteJSONString k @ 58 # QuoteJSONString v @ 44 # rest) acc =
     parse_members (Suc n) rest (define_property k (JsString v) acc)"
proof -
  have k: "parse_chars (quote_units k @ 34 # 58 # QuoteJSONString v @ 44 # rest) [] =
             Some (k, 58 # QuoteJSONString v @ 44 # rest)"
    by (rule parse_QuoteJSONString)
  have v: "parse_value (Suc n) (QuoteJSONString v @ 44 # rest) = Some (JsString v, 44 # rest)"
    by (rule parse_value_string)
  have "parse_members (Suc (Suc n)) (34 # quote_units k @ 34 # 58 # QuoteJSONString v @ 44 # rest) acc =
     parse_members (Suc n) rest (define_property k (JsString v) acc)"
    by (subst parse_members.simps(2))
       (simp add: k v del: parse_value.simps parse_members.simps)
  then show ?thesis
    by (simp add: QuoteJSONString_def [of k] del: parse_value.simps parse_members.simps)
qed

lemma parse_member_last:
  "parse_members (Suc (Suc n)) (QuoteJSONString k @ 58 # QuoteJSONString v @ 125 # rest) acc =
     Some (JsObject (define_property k (JsString v) acc), rest)"
proof -
  have k: "parse_chars (quote_units k @ 34 # 58 # QuoteJSONString v @ 125 # rest) [] =
             Some (k, 58 # QuoteJSONString v @ 125 # rest)"
    by (rule parse_QuoteJSONString)
  have v: "parse_value (Suc n) (QuoteJSONString v @ 125 # rest) = Some (JsString v, 125 # rest)"
    by (rule parse_value_string)
  have "parse_members (Suc (Suc n)) (34 # quote_units k @ 34 # 58 # QuoteJSONString v @ 125 # rest) acc =
     Some (JsObject (define_property k (JsString v) acc), rest)"
    by (simp add: k v del: parse_value.simps)
  then show ?thesis
    by (simp add: QuoteJSONString_def [of k] del: parse_value.simps parse_members.simps)
qed


lemma credentials_text:
  "JSON_stringify (credentials_properties c) @ rest =
     123 # (QuoteJSONString (ascii ''privateKey'') @ 58 # QuoteJSONString (privateKey c) @ 44 #
            (QuoteJSONString (ascii ''wsNode'') @ 58 # QuoteJSONString (wsNode c) @ 44 #
             (QuoteJSONString (ascii ''httpNode'') @ 58 # QuoteJSONString (httpNode c) @ 125 # rest)))"
  by (simp add: JSON_stringify_def credentials_properties_def)

lemma credentials_keys:
  "define_property (ascii ''httpNode'') v3
     (define_property (ascii ''wsNode'') v2
        (define_property (ascii ''privateKey'') v1 [])) =
   [(ascii ''privateKey'', v1), (ascii ''wsNode'', v2), (ascii ''httpNode'', v3)]"
  by (simp add: ascii_def)

lemma parse_credentials_text:
  "parse_value (Suc (Suc (Suc (Suc (Suc n))))) (JSON_stringify (credentials_properties c) @ rest) =
     Some (credentials_value c, rest)"
proof -
  let ?m3 = "QuoteJSONString (ascii ''httpNode'') @ 58 # QuoteJSONString (httpNode c) @ 125 # rest"
  let ?m2 = "QuoteJSONString (ascii ''wsNode'') @ 58 # QuoteJSONString (wsNode c) @ 44 # ?m3"
  let ?m1 = "QuoteJSONString (ascii ''privateKey'') @ 58 # QuoteJSONString (privateKey c) @ 44 # ?m2"
  have start: "?m1 = 34 # tl ?m1" by (simp add: QuoteJSONString_def)
  have "parse_value (Suc (Suc (Suc (Suc (Suc n))))) (123 # ?m1) =
          parse_members (Suc (Suc (Suc (Suc n)))) ?m1 []"
    by (subst start, subst parse_value.simps(2), subst (2) start) simp
  also have "\<dots> = parse_members (Suc (Suc (Suc n))) ?m2
                      (define_property (ascii ''privateKey'') (JsString (privateKey c)) [])"
    by (rule parse_member_more)
  also have "\<dots> = parse_members (Suc (Suc n)) ?m3
                      (define_property (ascii ''wsNode'') (JsString (wsNode c))
                         (define_property (ascii ''privateKey'') (JsString (privateKey c)) []))"
    by (rule parse_member_more)
  also have "\<dots> = Some (JsObject
                      (define_property (ascii ''httpNode'') (JsString (httpNode c))
                         (define_property (ascii ''wsNode'') (JsString (wsNode c))
                            (define_property (ascii ''privateKey'') (JsString (privateKey c)) []))),
                      rest)"
    by (rule parse_member_last)
  finally show ?thesis
    by (simp only: credentials_text credentials_keys credentials_value_def)
qed

lemma JSON_parse_stringify_credentials:
  "JSON_parse (JSON_stringify (credentials_properties c)) = Inr (credentials_value c)"
proof -
  let ?t = "JSON_stringify (credentials_properties c)"
  have "2 \<le> length ?t" by (simp add: JSON_stringify_def credentials_properties_def)
  then have eq: "2 * length ?t + 2 = Suc (Suc (Suc (Suc (Suc (2 * length ?t - 3)))))" by simp
  have "parse_value (2 * length ?t + 2) ?t =
          parse_value (Suc (Suc (Suc (Suc (Suc (2 * length ?t - 3)))))) (?t @ [])"
    by (simp only: eq append_Nil2)
  also have "\<dots> = Some (credentials_value c, [])"
    by (rule parse_credentials_text)
  finally show ?thesis by (simp add: JSON_parse_def)
qed

text \<open>The equations of the parser for fuel given as a numeral.\<close>

lemmas parse_value_numeral =
  parse_value.simps(2) [of "pred_numeral k", folded numeral_eq_Suc]
  parse_elements.simps(2) [of "pred_numeral k", folded numeral_eq_Suc]
  parse_members.simps(2) [of "pred_numeral k", folded numeral_eq_Suc]
  for k

lemmas json_eval =
  JSON_parse_def parse_value_numeral ascii_def hex4_def hexval_def simple_escape_def
  parse_number_def parse_int_def parse_frac_def parse_exp_def parse_sign_def
  getWalletCredentials_def

text \<open>Some texts and what the parser makes of them.\<close>

lemma JSON_parse_unfinished: \<open>JSON_parse (ascii ''{privateKey'') = Inl SyntaxError\<close>
  by (simp add: json_eval)


lemma JSON_parse_example: \<open>JSON_parse (ascii '' {"a" : [1.5e3, true, null, "x'' @ [92, 110] @ ascii ''"], "b": {}, "a": 0} '')
   = Inr (JsObject [(ascii ''a'', JsNumber (ascii ''0'')), (ascii ''b'', JsObject [])])\<close>
  by (simp add: json_eval)

lemma JSON_parse_examples: \<open>JSON_parse (ascii ''01'') = Inl SyntaxError \<and> JSON_parse (ascii ''1.'') = Inl SyntaxError
  \<and> JSON_parse (ascii ''-'') = Inl SyntaxError \<and> JSON_parse (ascii ''[1,]'') = Inl SyntaxError
  \<and> JSON_parse (ascii ''{"a":1,}'') = Inl SyntaxError \<and> JSON_parse (ascii ''nul'') = Inl SyntaxError
  \<and> JSON_parse [] = Inl SyntaxError \<and> JSON_parse (ascii ''  -12.50E+3  '') = Inr (JsNumber (ascii ''-12.50E+3''))
  \<and> JSON_parse ([34, 97, 10, 98, 34]) = Inl SyntaxError
  \<and> JSON_parse (ascii ''"'' @ [92] @ ascii ''u00E9'' @ [92] @ ascii ''/"'') = Inr (JsString [233, 47])
  \<and> JSON_parse (ascii ''[[[[]]]]'') = Inr (JsArray [JsArray [JsArray [JsArray []]]])
  \<and> JSON_parse (ascii ''[1] 2'') = Inl SyntaxError
  \<and> JSON_parse (ascii ''null'') = Inr JsNull\<close>
  by (simp add: json_eval)

subsection \<open>The three functions\<close>

text \<open>
  Claim C10. For every credentials record \<open>c\<close> (three strings) and every state of the
  store, \<open>getWalletCredentials\<close> right after \<open>saveWalletCredentials c\<close> returns an object
  with exactly the three properties of \<open>c\<close> and their values, and right after
  \<open>clearWalletCredentials\<close> it returns \<^verbatim>\<open>null\<close>.
\<close>

theorem save_get_clear:
  "getWalletCredentials (saveWalletCredentials st c) = Inr (credentials_value c)
   \<and> getWalletCredentials (clearWalletCredentials st) = Inr JsNull"
proof -
  have "JSON_stringify (credentials_properties c) \<noteq> []"
    by (simp add: JSON_stringify_def)
  then show ?thesis
    by (simp add: getWalletCredentials_def saveWalletCredentials_def clearWalletCredentials_def
          JSON_parse_stringify_credentials)
qed

text \<open>
  A record whose strings hold a quote, a line feed and a lone surrogate: the text that is
  stored, and the object that is read back.
\<close>

theorem save_get_clear_witness:
  \<open>getWalletCredentials (saveWalletCredentials Map.empty
       \<lparr>privateKey = ascii ''ab"c'', wsNode = ascii ''ws://node'', httpNode = [104, 10, 55357]\<rparr>)
     = Inr (JsObject [(ascii ''privateKey'', JsString (ascii ''ab"c'')),
                      (ascii ''wsNode'', JsString (ascii ''ws://node'')),
                      (ascii ''httpNode'', JsString [104, 10, 55357])])
   \<and> JSON_stringify (credentials_properties
        \<lparr>privateKey = ascii ''ab"c'', wsNode = ascii ''ws://node'', httpNode = [104, 10, 55357]\<rparr>)
     = ascii ''{"privateKey":"ab'' @ [92] @ ascii ''"c","wsNode":"ws://node","httpNode":"h''
         @ [92] @ ascii ''n'' @ [92] @ ascii ''ud83d"}''\<close>
  using save_get_clear [of Map.empty
      \<open>\<lparr>privateKey = ascii ''ab"c'', wsNode = ascii ''ws://node'', httpNode = [104, 10, 55357]\<rparr>\<close>]
  by (simp add: credentials_value_def JSON_stringify_def credentials_properties_def
        QuoteJSONString_def quote_unit_def unicode_escape_def hex_digits_def hexdigit_def
        is_high_def is_low_def ascii_def)

text \<open>
  Claim C9. For every state of the store \<open>getWalletCredentials\<close> returns a value and
  does not throw: \<^verbatim>\<open>null\<close> when nothing is stored under the key, and \<^verbatim>\<open>null\<close> when
  \<^verbatim>\<open>JSON.parse\<close> throws on what is stored.
\<close>

theorem get_never_throws:
  "(\<exists>v. getWalletCredentials st = Inr v)
   \<and> (st storage_key = None \<longrightarrow> getWalletCredentials st = Inr JsNull)
   \<and> (st storage_key = Some stored \<and> JSON_parse stored = Inl e \<longrightarrow>
        getWalletCredentials st = Inr JsNull)"
  by (auto simp: getWalletCredentials_def split: option.splits sum.splits)

text \<open>A store that holds the beginning of an object only, and an empty store.\<close>

theorem get_never_throws_witness:
  \<open>getWalletCredentials (Map.empty(storage_key \<mapsto> ascii ''{"privateKey":'')) = Inr JsNull
   \<and> JSON_parse (ascii ''{"privateKey":'') = Inl SyntaxError
   \<and> getWalletCredentials Map.empty = Inr JsNull\<close>
  using get_never_throws [of \<open>Map.empty(storage_key \<mapsto> ascii ''{"privateKey":'')\<close>
          \<open>ascii ''{"privateKey":''\<close> SyntaxError]
        get_never_throws [of Map.empty "[]" SyntaxError]
  by (simp add: json_eval)

end
